theory Spec2Isabelle
  imports Main "HOL-Library.Word" "HOL-Library.Signed_Division"
begin

unbundle bit_operations_syntax

section \<open>Failures of the C++ program as values\<close>

text \<open>
  The two translation units (reverse.cpp and integrator.h) are embedded as HOL functions.
  Every place where the C++ has no defined result is a branch that returns an error:
  \<^item> \<open>EmptyContainer\<close>: \<open>top()\<close>, \<open>pop()\<close>, \<open>back()\<close> or \<open>pop_back()\<close> on an empty
    \<open>std::stack\<close> or \<open>boost::circular_buffer\<close>;
  \<^item> \<open>SignedOverflow\<close>: an \<open>int\<close> operation whose result does not fit 32 bits, and the
    conversion of an out-of-range \<open>double\<close> to \<open>int\<close>;
  \<^item> \<open>DivisionByZero\<close>: \<open>a % b\<close> with \<open>b = 0\<close>;
  \<^item> \<open>AssertionFailed\<close>: an \<open>assert\<close> that does not hold.
\<close>

datatype error = EmptyContainer | SignedOverflow | DivisionByZero | AssertionFailed

definition INT_MIN :: int where
  "INT_MIN = - 2147483648"

definition INT_MAX :: int where
  "INT_MAX = 2147483647"

text \<open>The result of an \<open>int\<close> operation, computed exactly: defined only when it fits.\<close>

definition to_int :: "int \<Rightarrow> error + int" where
  "to_int v = (if INT_MIN \<le> v \<and> v \<le> INT_MAX then Inr v else Inl SignedOverflow)"

text \<open>
  \<open>IntAST(std::pow(a, b))\<close>: the power is computed in \<open>double\<close> and converted to \<open>int\<close>
  by truncation. A power with a non-negative exponent that fits an \<open>int\<close> is exactly
  representable; with a negative exponent the quotient is infinite for \<open>a = 0\<close>, is
  \<open>1\<close> or \<open>-1\<close> for \<open>\<bar>a\<bar> = 1\<close>, and lies strictly between \<open>-1\<close> and \<open>1\<close> otherwise.
\<close>

definition pow_to_int :: "int \<Rightarrow> int \<Rightarrow> error + int" where
  "pow_to_int a b =
     (if 0 \<le> b then to_int (a ^ nat b)
      else if a = 0 then Inl SignedOverflow
      else if a = 1 then Inr 1
      else if a = - 1 then Inr (if even b then 1 else - 1)
      else Inr 0)"

section \<open>reverse.cpp: the expression tree\<close>

text \<open>
  \<open>struct Operator\<close> has two constant fields; its only constructor takes the symbol and
  computes the precedence, asserting that the symbol is one of the five known ones.
\<close>

record Operator =
  symbol :: char
  precedence :: int

definition eval_precedence :: "char \<Rightarrow> error + int" where
  "eval_precedence c =
     (if c = CHR ''+'' \<or> c = CHR ''-'' then Inr 50
      else if c = CHR ''*'' \<or> c = CHR ''/'' then Inr 60
      else if c = CHR ''^'' then Inr 70
      else Inl AssertionFailed)"

definition mk_Operator :: "char \<Rightarrow> error + Operator" where
  "mk_Operator c =
     (case eval_precedence c of
        Inl e \<Rightarrow> Inl e
      | Inr p \<Rightarrow> Inr \<lparr>symbol = c, precedence = p\<rparr>)"

text \<open>
  The class hierarchy under \<open>AST\<close> is a case distinction: one constructor per subclass,
  with the subclass's fields. \<open>FuncAST\<close> stores the function's name, which its
  constructor computes from the symbol.
\<close>

datatype AST =
    VariableAST string
  | IntAST int
  | FuncAST string AST
  | BinaryOperatorAST Operator AST AST
  | NegativeOperatorAST AST

definition eval_func_name :: "char \<Rightarrow> error + string" where
  "eval_func_name c =
     (if c = CHR ''S'' then Inr ''sin''
      else if c = CHR ''C'' then Inr ''cos''
      else if c = CHR ''T'' then Inr ''tan''
      else if c = CHR ''R'' then Inr ''sqrt''
      else if c = CHR ''L'' then Inr ''log''
      else Inl AssertionFailed)"

definition mk_FuncAST :: "char \<Rightarrow> AST \<Rightarrow> error + AST" where
  "mk_FuncAST c arg =
     (case eval_func_name c of
        Inl e \<Rightarrow> Inl e
      | Inr name \<Rightarrow> Inr (FuncAST name arg))"

definition mk_BinaryOperatorAST :: "char \<Rightarrow> AST \<Rightarrow> AST \<Rightarrow> error + AST" where
  "mk_BinaryOperatorAST c lhs rhs =
     (case mk_Operator c of
        Inl e \<Rightarrow> Inl e
      | Inr op \<Rightarrow> Inr (BinaryOperatorAST op lhs rhs))"

text \<open>The number of nodes of a tree.\<close>

fun node_count :: "AST \<Rightarrow> nat" where
  "node_count (VariableAST n) = 1"
| "node_count (IntAST v) = 1"
| "node_count (FuncAST f a) = 1 + node_count a"
| "node_count (BinaryOperatorAST op l r) = 1 + node_count l + node_count r"
| "node_count (NegativeOperatorAST r) = 1 + node_count r"

subsection \<open>The infix printer\<close>

text \<open>\<open>std::to_string(int)\<close>: decimal digits, with a minus sign for a negative value.\<close>

definition digit_char :: "nat \<Rightarrow> char" where
  "digit_char d = char_of (48 + d)"

function decimal :: "nat \<Rightarrow> string" where
  "decimal n = (if n < 10 then [digit_char n] else decimal (n div 10) @ [digit_char (n mod 10)])"
  by pat_completeness auto
termination
  by (relation "measure id") auto

definition int_to_string :: "int \<Rightarrow> string" where
  "int_to_string v = (if v < 0 then CHR ''-'' # decimal (nat (- v)) else decimal (nat v))"

definition parens :: "string \<Rightarrow> string" where
  "parens s = ''('' @ s @ '')''"

fun to_string :: "AST \<Rightarrow> string" where
  "to_string (VariableAST name) = name"
| "to_string (IntAST v) = int_to_string v"
| "to_string (FuncAST func_name argument) = func_name @ ''('' @ to_string argument @ '')''"
| "to_string (BinaryOperatorAST op lhs rhs) =
     (let lhs_str = to_string lhs;
          rhs_str = to_string rhs;
          lhs_str = (case lhs of
                       BinaryOperatorAST p_op _ _ \<Rightarrow>
                         if precedence p_op < precedence op then parens lhs_str else lhs_str
                     | _ \<Rightarrow> lhs_str);
          rhs_str = (case rhs of
                       BinaryOperatorAST p_op _ _ \<Rightarrow>
                         if precedence p_op < precedence op then parens rhs_str else rhs_str
                     | _ \<Rightarrow> rhs_str);
          rhs_str = (if symbol op = CHR ''/'' \<or> symbol op = CHR ''-''
                     then (case rhs of
                             BinaryOperatorAST p_op _ _ \<Rightarrow>
                               if symbol p_op = symbol op then parens rhs_str else rhs_str
                           | _ \<Rightarrow> rhs_str)
                     else rhs_str)
      in lhs_str @ '' '' @ [symbol op] @ '' '' @ rhs_str)"
| "to_string (NegativeOperatorAST rhs) =
     (case rhs of
        BinaryOperatorAST _ _ _ \<Rightarrow> ''-('' @ to_string rhs @ '')''
      | _ \<Rightarrow> ''-'' @ to_string rhs)"

subsection \<open>The postfix parser\<close>

text \<open>
  One iteration of the loop of \<open>parse_reverse_polish\<close>: the switch on the front character.
  The stack is a list with its top at the head.
\<close>

definition parse_step :: "char \<Rightarrow> AST list \<Rightarrow> error + AST list" where
  "parse_step c stack =
     (if c = CHR ''0'' then Inr (IntAST 0 # stack)
      else if c = CHR ''1'' then Inr (IntAST 1 # stack)
      else if c \<in> set ''xyzabc'' then Inr (VariableAST [c] # stack)
      else if c \<in> set ''SCTRL'' then
        (case stack of
           [] \<Rightarrow> Inl EmptyContainer
         | arg # stack' \<Rightarrow>
             (case mk_FuncAST c arg of Inl e \<Rightarrow> Inl e | Inr n \<Rightarrow> Inr (n # stack')))
      else if c \<in> set ''+-*/'' then
        (case stack of
           rhs # lhs # stack' \<Rightarrow>
             (case mk_BinaryOperatorAST c lhs rhs of Inl e \<Rightarrow> Inl e | Inr n \<Rightarrow> Inr (n # stack'))
         | _ \<Rightarrow> Inl EmptyContainer)
      else if c = CHR 0x5C then
        (case stack of
           [] \<Rightarrow> Inl EmptyContainer
         | rhs # stack' \<Rightarrow>
             (case mk_BinaryOperatorAST (CHR ''/'') (IntAST 1) rhs of
                Inl e \<Rightarrow> Inl e | Inr n \<Rightarrow> Inr (n # stack')))
      else if c = CHR ''H'' then
        (case stack of
           [] \<Rightarrow> Inl EmptyContainer
         | lhs # stack' \<Rightarrow>
             (case mk_BinaryOperatorAST (CHR ''/'') lhs (IntAST 2) of
                Inl e \<Rightarrow> Inl e | Inr n \<Rightarrow> Inr (n # stack')))
      else if c = CHR ''<'' then
        (case stack of
           [] \<Rightarrow> Inl EmptyContainer
         | lhs # stack' \<Rightarrow>
             (case mk_BinaryOperatorAST (CHR ''-'') lhs (IntAST 1) of
                Inl e \<Rightarrow> Inl e | Inr n \<Rightarrow> Inr (n # stack')))
      else if c = CHR ''>'' then
        (case stack of
           [] \<Rightarrow> Inl EmptyContainer
         | lhs # stack' \<Rightarrow>
             (case mk_BinaryOperatorAST (CHR ''+'') lhs (IntAST 1) of
                Inl e \<Rightarrow> Inl e | Inr n \<Rightarrow> Inr (n # stack')))
      else if c = CHR ''2'' then
        (case stack of
           [] \<Rightarrow> Inl EmptyContainer
         | lhs # stack' \<Rightarrow>
             (case mk_BinaryOperatorAST (CHR ''^'') lhs (IntAST 2) of
                Inl e \<Rightarrow> Inl e | Inr n \<Rightarrow> Inr (n # stack')))
      else if c = CHR ''~'' then
        (case stack of
           [] \<Rightarrow> Inl EmptyContainer
         | rhs # stack' \<Rightarrow> Inr (NegativeOperatorAST rhs # stack'))
      else Inl AssertionFailed)"

fun parse_loop :: "string \<Rightarrow> AST list \<Rightarrow> error + AST list" where
  "parse_loop [] stack = Inr stack"
| "parse_loop (c # src) stack =
     (case parse_step c stack of
        Inl e \<Rightarrow> Inl e
      | Inr stack' \<Rightarrow> parse_loop src stack')"

definition parse_reverse_polish :: "string \<Rightarrow> error + AST" where
  "parse_reverse_polish src =
     (case parse_loop src [] of
        Inl e \<Rightarrow> Inl e
      | Inr stack \<Rightarrow>
          (case stack of
             [root] \<Rightarrow> Inr root
           | _ \<Rightarrow> Inl AssertionFailed))"

subsection \<open>The simplifier\<close>

text \<open>
  \<open>visit\<close> rewrites one node in place and reports whether it did. The model returns the
  flag with the node. The three \<open>if\<close> blocks of the source are tried in order, and in
  the \<open>switch\<close> on the operator symbol the case \<open>'/'\<close> has no \<open>break\<close>: when the
  remainder is not zero, control falls through to the case \<open>'^'\<close>.
\<close>

definition one_is_identity :: "AST \<Rightarrow> AST \<Rightarrow> AST \<Rightarrow> bool \<times> AST" where
  "one_is_identity node lhs rhs =
     (case lhs of
        IntAST a \<Rightarrow>
          if a = 1 then (True, rhs)
          else (case rhs of
                  IntAST b \<Rightarrow> if b = 1 then (True, lhs) else (False, node)
                | _ \<Rightarrow> (False, node))
      | _ \<Rightarrow>
          (case rhs of
             IntAST b \<Rightarrow> if b = 1 then (True, lhs) else (False, node)
           | _ \<Rightarrow> (False, node)))"

definition folded :: "error + int \<Rightarrow> error + bool \<times> AST" where
  "folded r = (case r of Inl e \<Rightarrow> Inl e | Inr new_value \<Rightarrow> Inr (True, IntAST new_value))"

fun visit :: "AST \<Rightarrow> error + bool \<times> AST" where
  "visit (NegativeOperatorAST (IntAST v)) = folded (to_int (- v))"
| "visit (NegativeOperatorAST (NegativeOperatorAST x)) = Inr (True, x)"
| "visit (BinaryOperatorAST op (IntAST a) (IntAST b)) =
     (if symbol op = CHR ''+'' then folded (to_int (a + b))
      else if symbol op = CHR ''-'' then folded (to_int (a - b))
      else if symbol op = CHR ''*'' then folded (to_int (a * b))
      else if symbol op = CHR ''/'' then
        (if b = 0 then Inl DivisionByZero
         else if a = INT_MIN \<and> b = - 1 then Inl SignedOverflow
         else if a smod b = 0 then folded (to_int (a sdiv b))
         else folded (pow_to_int a b))
      else if symbol op = CHR ''^'' then folded (pow_to_int a b)
      else Inr (one_is_identity (BinaryOperatorAST op (IntAST a) (IntAST b)) (IntAST a) (IntAST b)))"
| "visit (BinaryOperatorAST op lhs rhs) =
     Inr (one_is_identity (BinaryOperatorAST op lhs rhs) lhs rhs)"
| "visit node = Inr (False, node)"

text \<open>
  \<open>simplify_pass_helper\<close> descends into the argument of a function node and into both
  operands of a binary node (not into the operand of a negation), then visits the node
  itself. The flag \<open>modified\<close> is passed by reference and only ever set.
\<close>

definition visit_root :: "AST \<Rightarrow> bool \<Rightarrow> error + bool \<times> AST" where
  "visit_root root modified =
     (case visit root of
        Inl e \<Rightarrow> Inl e
      | Inr (changed, root') \<Rightarrow> Inr (if changed then True else modified, root'))"

fun simplify_pass_helper :: "AST \<Rightarrow> bool \<Rightarrow> error + bool \<times> AST" where
  "simplify_pass_helper (FuncAST name argument) modified =
     (case simplify_pass_helper argument modified of
        Inl e \<Rightarrow> Inl e
      | Inr (m1, argument') \<Rightarrow> visit_root (FuncAST name argument') m1)"
| "simplify_pass_helper (BinaryOperatorAST op lhs rhs) modified =
     (case simplify_pass_helper lhs modified of
        Inl e \<Rightarrow> Inl e
      | Inr (m1, lhs') \<Rightarrow>
          (case simplify_pass_helper rhs m1 of
             Inl e \<Rightarrow> Inl e
           | Inr (m2, rhs') \<Rightarrow> visit_root (BinaryOperatorAST op lhs' rhs') m2))"
| "simplify_pass_helper root modified = visit_root root modified"

definition simplify_pass :: "AST \<Rightarrow> error + bool \<times> AST" where
  "simplify_pass root = simplify_pass_helper root False"

text \<open>
  \<open>do {} while (simplify_pass(root));\<close> The loop has no bound of its own, so the model
  is a partial function: \<open>None\<close> stands for a loop that never ends, \<open>Some (Inl e)\<close> for
  a pass that hit undefined behaviour, \<open>Some (Inr t)\<close> for the tree at the fixed point.
\<close>

partial_function (option) simplify :: "AST \<Rightarrow> (error + AST) option" where
  "simplify root =
     (case simplify_pass root of
        Inl e \<Rightarrow> Some (Inl e)
      | Inr (modified, root') \<Rightarrow> if modified then simplify root' else Some (Inr root'))"

declare simplify.simps [code]

definition infix_from_reverse_polish :: "string \<Rightarrow> (error + string) option" where
  "infix_from_reverse_polish src =
     (case parse_reverse_polish src of
        Inl e \<Rightarrow> Some (Inl e)
      | Inr ast \<Rightarrow>
          (case simplify ast of
             None \<Rightarrow> None
           | Some (Inl e) \<Rightarrow> Some (Inl e)
           | Some (Inr ast') \<Rightarrow> Some (Inr (to_string ast'))))"


subsection \<open>Shapes of trees\<close>

text \<open>\<open>dynamic_cast<IntAST*>\<close> succeeds.\<close>

fun is_IntAST :: "AST \<Rightarrow> bool" where
  "is_IntAST (IntAST v) = True"
| "is_IntAST node = False"

text \<open>
  An operator that the constructor of \<open>Operator\<close> can have built, and a tree all of
  whose operators are such: the trees that the C++ program can hold.
\<close>

definition valid_Operator :: "Operator \<Rightarrow> bool" where
  "valid_Operator op = (mk_Operator (symbol op) = Inr op)"

fun well_formed :: "AST \<Rightarrow> bool" where
  "well_formed (VariableAST name) = True"
| "well_formed (IntAST v) = True"
| "well_formed (FuncAST name argument) = well_formed argument"
| "well_formed (BinaryOperatorAST op lhs rhs) =
     (valid_Operator op \<and> well_formed lhs \<and> well_formed rhs)"
| "well_formed (NegativeOperatorAST rhs) = well_formed rhs"

subsection \<open>The parenthesisation rule in the words of the specification\<close>

text \<open>
  These definitions follow the specification, not the source: the precedence table, and
  the two conditions under which an operand of a binary node is wrapped in parentheses.
  They are compared with \<open>to_string\<close> below.
\<close>

definition spec_precedence :: "char \<Rightarrow> int" where
  "spec_precedence c =
     (if c = CHR ''+'' \<or> c = CHR ''-'' then 50
      else if c = CHR ''*'' \<or> c = CHR ''/'' then 60
      else 70)"

fun spec_lower_precedence :: "char \<Rightarrow> AST \<Rightarrow> bool" where
  "spec_lower_precedence c (BinaryOperatorAST p_op l r) =
     (spec_precedence (symbol p_op) < spec_precedence c)"
| "spec_lower_precedence c operand = False"

fun spec_same_symbol :: "char \<Rightarrow> AST \<Rightarrow> bool" where
  "spec_same_symbol c (BinaryOperatorAST p_op l r) = (symbol p_op = c)"
| "spec_same_symbol c operand = False"

definition spec_wrap_left :: "char \<Rightarrow> AST \<Rightarrow> bool" where
  "spec_wrap_left c operand = spec_lower_precedence c operand"

definition spec_wrap_right :: "char \<Rightarrow> AST \<Rightarrow> bool" where
  "spec_wrap_right c operand =
     (spec_lower_precedence c operand \<or>
      ((c = CHR ''/'' \<or> c = CHR ''-'') \<and> spec_same_symbol c operand))"

definition spec_render :: "bool \<Rightarrow> string \<Rightarrow> string" where
  "spec_render wrap s = (if wrap then ''('' @ s @ '')'' else s)"

section \<open>integrator.h: the pseudo-random generator\<close>

text \<open>
  \<open>CustomGenerator\<close> keeps a \<open>uint32_t\<close> state. \<open>xorshift32\<close> updates it with three
  shift-and-xor steps on 32 bits and returns the new state as \<open>uint32_t\<close>. The call
  operator returns \<open>result_type\<close>, which is \<open>int\<close>: the conversion of the unsigned value
  keeps its 32 bits and reads them as two's complement. The class declares \<open>min()\<close> as 0
  and \<open>max()\<close> as the largest \<open>int\<close>.
\<close>

record CustomGenerator =
  state :: "32 word"

definition mk_CustomGenerator :: "32 word \<Rightarrow> error + CustomGenerator" where
  "mk_CustomGenerator seed = (if seed = 0 then Inl AssertionFailed else Inr \<lparr>state = seed\<rparr>)"

definition CustomGenerator_max :: int where
  "CustomGenerator_max = INT_MAX"

definition CustomGenerator_min :: int where
  "CustomGenerator_min = 0"

definition xorshift32 :: "CustomGenerator \<Rightarrow> 32 word \<times> CustomGenerator" where
  "xorshift32 g =
     (let x = state g;
          x = x XOR push_bit 13 x;
          x = x XOR drop_bit 17 x;
          x = x XOR push_bit 5 x
      in (x, g\<lparr>state := x\<rparr>))"

definition CustomGenerator_call :: "CustomGenerator \<Rightarrow> int \<times> CustomGenerator" where
  "CustomGenerator_call g = (case xorshift32 g of (x, g') \<Rightarrow> (sint x, g'))"

text \<open>
  The operator \<open>%\<close> on two \<open>int\<close> values truncates towards zero: the remainder has the
  sign of the dividend. It is undefined for a zero divisor and where the quotient
  overflows.
\<close>

definition int_rem :: "int \<Rightarrow> int \<Rightarrow> error + int" where
  "int_rem a b =
     (if b = 0 then Inl DivisionByZero
      else if a = INT_MIN \<and> b = - 1 then Inl SignedOverflow
      else Inr (a smod b))"

section \<open>integrator.h: the composer\<close>

definition nullary_pool :: string where
  "nullary_pool = ''1x''"

definition unary_pool :: string where
  "unary_pool = [CHR 0x5C, CHR ''~'', CHR ''>'', CHR ''<'', CHR ''C'', CHR ''S'', CHR ''2'',
                 CHR ''R'', CHR ''L'', CHR ''H'']"

definition binary_pool :: string where
  "binary_pool = ''+-/*''"

definition expr_max_size :: nat where
  "expr_max_size = 64"

text \<open>
  The arithmetic of \<open>double\<close> is not modelled: the literals and operations that the
  composer uses are the fields of a parameter, over any type of values.
\<close>

record 'd double_arith =
  lit_zero :: 'd
  lit_one :: 'd
  lit_minus_one :: 'd
  lit_two :: 'd
  d_add :: "'d \<Rightarrow> 'd \<Rightarrow> 'd"
  d_sub :: "'d \<Rightarrow> 'd \<Rightarrow> 'd"
  d_mul :: "'d \<Rightarrow> 'd \<Rightarrow> 'd"
  d_div :: "'d \<Rightarrow> 'd \<Rightarrow> 'd"
  d_sin :: "'d \<Rightarrow> 'd"
  d_cos :: "'d \<Rightarrow> 'd"
  d_tan :: "'d \<Rightarrow> 'd"
  d_sqrt :: "'d \<Rightarrow> 'd"
  d_log :: "'d \<Rightarrow> 'd"

text \<open>
  The state of a \<open>Composer\<close>. The operand stack is a \<open>boost::circular_buffer\<close> of
  capacity \<open>expr_max_size\<close>, modelled as a list with its back at the head: \<open>push_back\<close>
  on a full buffer overwrites the element at the front (the last of the list).
  The constructor leaves \<open>x_value\<close> uninitialised: the model takes its content as an
  argument.
\<close>

record 'd Composer =
  x_value :: 'd
  stack :: "'d list"
  rng :: CustomGenerator

definition mk_Composer :: "'d \<Rightarrow> 32 word \<Rightarrow> error + 'd Composer" where
  "mk_Composer indeterminate rng_seed =
     (case mk_CustomGenerator rng_seed of
        Inl e \<Rightarrow> Inl e
      | Inr g \<Rightarrow> Inr \<lparr>x_value = indeterminate, stack = [], rng = g\<rparr>)"

text \<open>A pointer to a member function of \<open>Composer\<close>: one value per member.\<close>

datatype MemberFuncPtr =
    Composer_x | Composer_zero | Composer_one
  | Composer_invert | Composer_invert_sign | Composer_increment | Composer_decrement
  | Composer_sin | Composer_cos | Composer_tan | Composer_square | Composer_root
  | Composer_log | Composer_halve
  | Composer_add | Composer_subtract | Composer_multiply | Composer_divide

definition operator_dict :: "char \<Rightarrow> error + MemberFuncPtr" where
  "operator_dict c =
     (if c = CHR ''x'' then Inr Composer_x
      else if c = CHR ''0'' then Inr Composer_zero
      else if c = CHR ''1'' then Inr Composer_one
      else if c = CHR 0x5C then Inr Composer_invert
      else if c = CHR ''~'' then Inr Composer_invert_sign
      else if c = CHR ''>'' then Inr Composer_increment
      else if c = CHR ''<'' then Inr Composer_decrement
      else if c = CHR ''S'' then Inr Composer_sin
      else if c = CHR ''C'' then Inr Composer_cos
      else if c = CHR ''T'' then Inr Composer_tan
      else if c = CHR ''2'' then Inr Composer_square
      else if c = CHR ''R'' then Inr Composer_root
      else if c = CHR ''L'' then Inr Composer_log
      else if c = CHR ''H'' then Inr Composer_halve
      else if c = CHR ''+'' then Inr Composer_add
      else if c = CHR ''-'' then Inr Composer_subtract
      else if c = CHR ''*'' then Inr Composer_multiply
      else if c = CHR ''/'' then Inr Composer_divide
      else Inl AssertionFailed)"

fun compile :: "string \<Rightarrow> error + MemberFuncPtr list" where
  "compile [] = Inr []"
| "compile (c # expr) =
     (case operator_dict c of
        Inl e \<Rightarrow> Inl e
      | Inr f \<Rightarrow> (case compile expr of Inl e \<Rightarrow> Inl e | Inr ret \<Rightarrow> Inr (f # ret)))"

definition push_back :: "'d \<Rightarrow> 'd Composer \<Rightarrow> 'd Composer" where
  "push_back v c =
     c\<lparr>stack := v # (if length (stack c) < expr_max_size then stack c else butlast (stack c))\<rparr>"

definition apply_unary :: "('d \<Rightarrow> 'd) \<Rightarrow> 'd Composer \<Rightarrow> error + 'd Composer" where
  "apply_unary f c =
     (case stack c of
        [] \<Rightarrow> Inl EmptyContainer
      | v # rest \<Rightarrow> Inr (c\<lparr>stack := f v # rest\<rparr>))"

definition apply_binary :: "('d \<Rightarrow> 'd \<Rightarrow> 'd) \<Rightarrow> 'd Composer \<Rightarrow> error + 'd Composer" where
  "apply_binary f c =
     (case stack c of
        [] \<Rightarrow> Inl EmptyContainer
      | back # rest \<Rightarrow>
          (case rest of
             [] \<Rightarrow> Inl EmptyContainer
           | a # rest' \<Rightarrow> Inr (c\<lparr>stack := f a back # rest'\<rparr>)))"

text \<open>\<open>(this->*func)()\<close>: the body of the member that the pointer designates.\<close>

fun call :: "'d double_arith \<Rightarrow> MemberFuncPtr \<Rightarrow> 'd Composer \<Rightarrow> error + 'd Composer" where
  "call ar Composer_x c = Inr (push_back (x_value c) c)"
| "call ar Composer_zero c = Inr (push_back (lit_zero ar) c)"
| "call ar Composer_one c = Inr (push_back (lit_one ar) c)"
| "call ar Composer_invert c = apply_unary (\<lambda>v. d_div ar (lit_one ar) v) c"
| "call ar Composer_invert_sign c = apply_unary (\<lambda>v. d_mul ar v (lit_minus_one ar)) c"
| "call ar Composer_increment c = apply_unary (\<lambda>v. d_add ar v (lit_one ar)) c"
| "call ar Composer_decrement c = apply_unary (\<lambda>v. d_sub ar v (lit_one ar)) c"
| "call ar Composer_sin c = apply_unary (d_sin ar) c"
| "call ar Composer_cos c = apply_unary (d_cos ar) c"
| "call ar Composer_tan c = apply_unary (d_tan ar) c"
| "call ar Composer_square c = apply_unary (\<lambda>v. d_mul ar v v) c"
| "call ar Composer_root c = apply_unary (d_sqrt ar) c"
| "call ar Composer_log c = apply_unary (d_log ar) c"
| "call ar Composer_halve c = apply_unary (\<lambda>v. d_div ar v (lit_two ar)) c"
| "call ar Composer_add c = apply_binary (d_add ar) c"
| "call ar Composer_subtract c = apply_binary (d_sub ar) c"
| "call ar Composer_multiply c = apply_binary (d_mul ar) c"
| "call ar Composer_divide c = apply_binary (d_div ar) c"

text \<open>The loop of the private \<open>eval\<close>, then the private \<open>eval\<close>, then the public one.\<close>

fun run :: "'d double_arith \<Rightarrow> MemberFuncPtr list \<Rightarrow> 'd Composer \<Rightarrow> error + 'd Composer" where
  "run ar [] c = Inr c"
| "run ar (func # compiled_expr) c =
     (case call ar func c of
        Inl e \<Rightarrow> Inl e
      | Inr c' \<Rightarrow> run ar compiled_expr c')"

definition eval_compiled ::
  "'d double_arith \<Rightarrow> MemberFuncPtr list \<Rightarrow> 'd Composer \<Rightarrow> error + 'd \<times> 'd Composer" where
  "eval_compiled ar compiled_expr c =
     (case run ar compiled_expr c of
        Inl e \<Rightarrow> Inl e
      | Inr c' \<Rightarrow>
          (case stack c' of
             [] \<Rightarrow> Inl EmptyContainer
           | ret # rest \<Rightarrow> Inr (ret, c'\<lparr>stack := rest\<rparr>)))"

definition eval ::
  "'d double_arith \<Rightarrow> MemberFuncPtr list \<Rightarrow> 'd \<Rightarrow> 'd Composer \<Rightarrow> error + 'd \<times> 'd Composer" where
  "eval ar compiled_expr x c = eval_compiled ar compiled_expr (c\<lparr>x_value := x\<rparr>)"

text \<open>
  A monitor of the loop of \<open>eval\<close>: no member that pushes is called on a full buffer, that
  is, the depth of the operand stack never exceeds the capacity.
\<close>

fun pushes :: "MemberFuncPtr \<Rightarrow> bool" where
  "pushes Composer_x = True"
| "pushes Composer_zero = True"
| "pushes Composer_one = True"
| "pushes func = False"

fun within_capacity :: "'d double_arith \<Rightarrow> MemberFuncPtr list \<Rightarrow> 'd Composer \<Rightarrow> bool" where
  "within_capacity ar [] c = True"
| "within_capacity ar (func # compiled_expr) c =
     (if pushes func \<and> expr_max_size \<le> length (stack c) then False
      else (case call ar func c of
              Inl e \<Rightarrow> True
            | Inr c' \<Rightarrow> within_capacity ar compiled_expr c'))"

subsection \<open>The random generation of postfix strings\<close>

text \<open>
  \<open>arr[rng() % arr.size()]\<close>: the \<open>int\<close> drawn is converted to \<open>size_t\<close> (64 bits,
  unsigned) before the remainder is taken.
\<close>

definition draw_random_symbol :: "string \<Rightarrow> CustomGenerator \<Rightarrow> char \<times> CustomGenerator" where
  "draw_random_symbol arr g =
     (case CustomGenerator_call g of
        (r, g') \<Rightarrow> (arr ! nat ((r mod 2 ^ 64) mod int (length arr)), g'))"

text \<open>
  One iteration of the \<open>for\<close> loop of \<open>gen_random_expr\<close>; \<open>is_last\<close> is the test
  \<open>i == len-1\<close>. A choice outside 0, 1, 2 matches no case of the switch.
\<close>

definition gen_step ::
  "bool \<Rightarrow> int \<Rightarrow> string \<Rightarrow> CustomGenerator \<Rightarrow> error + string \<times> int \<times> CustomGenerator" where
  "gen_step is_last stack_size result g =
     (let roof = (if 2 \<le> stack_size then 3 else stack_size + 1)
      in case CustomGenerator_call g of
           (r, g1) \<Rightarrow>
             (case int_rem r roof of
                Inl e \<Rightarrow> Inl e
              | Inr drawn \<Rightarrow>
                  (let choice = (if is_last then (if stack_size = 1 then 1 else 2) else drawn)
                   in if choice = 0 then
                        (case draw_random_symbol nullary_pool g1 of
                           (ch, g2) \<Rightarrow> Inr (result @ [ch], stack_size + 1, g2))
                      else if choice = 1 then
                        (case draw_random_symbol unary_pool g1 of
                           (ch, g2) \<Rightarrow> Inr (result @ [ch], stack_size, g2))
                      else if choice = 2 then
                        (case draw_random_symbol binary_pool g1 of
                           (ch, g2) \<Rightarrow> Inr (result @ [ch], stack_size - 1, g2))
                      else Inr (result, stack_size, g1))))"

function gen_for ::
  "int \<Rightarrow> int \<Rightarrow> int \<Rightarrow> string \<Rightarrow> CustomGenerator \<Rightarrow> error + string \<times> int \<times> CustomGenerator"
where
  "gen_for i len stack_size result g =
     (if i < len then
        (case gen_step (i = len - 1) stack_size result g of
           Inl e \<Rightarrow> Inl e
         | Inr (result', stack_size', g') \<Rightarrow> gen_for (i + 1) len stack_size' result' g')
      else Inr (result, stack_size, g))"
  by pat_completeness auto
termination
  by (relation "measure (\<lambda>(i, len, stack_size, result, g). nat (len - i))") auto

function gen_while :: "int \<Rightarrow> string \<Rightarrow> CustomGenerator \<Rightarrow> string \<times> CustomGenerator" where
  "gen_while stack_size result g =
     (if 1 < stack_size then
        (case draw_random_symbol binary_pool g of
           (ch, g') \<Rightarrow> gen_while (stack_size - 1) (result @ [ch]) g')
      else (result, g))"
  by pat_completeness auto
termination
  by (relation "measure (\<lambda>(stack_size, result, g). nat stack_size)") auto

definition gen_random_expr :: "int \<Rightarrow> CustomGenerator \<Rightarrow> error + string \<times> CustomGenerator" where
  "gen_random_expr len g =
     (case gen_for 0 len 0 [] g of
        Inl e \<Rightarrow> Inl e
      | Inr (result, stack_size, g') \<Rightarrow> Inr (gen_while stack_size result g'))"

definition compose ::
  "int \<Rightarrow> 'd Composer \<Rightarrow> error + (string \<times> MemberFuncPtr list) \<times> 'd Composer" where
  "compose tentative_len c =
     (case CustomGenerator_call (rng c) of
        (r, g1) \<Rightarrow>
          (case int_rem r tentative_len of
             Inl e \<Rightarrow> Inl e
           | Inr m \<Rightarrow>
               (case to_int (m + 2) of
                  Inl e \<Rightarrow> Inl e
                | Inr len \<Rightarrow>
                    (case gen_random_expr len g1 of
                       Inl e \<Rightarrow> Inl e
                     | Inr (raw_expr, g2) \<Rightarrow>
                         (case compile raw_expr of
                            Inl e \<Rightarrow> Inl e
                          | Inr compiled \<Rightarrow> Inr ((raw_expr, compiled), c\<lparr>rng := g2\<rparr>))))))"

subsection \<open>Well-formed postfix strings\<close>

text \<open>
  The specification's notion of a postfix string over the three pools: reading the string
  from the left, a nullary symbol raises the depth of the operand stack by one (up to a
  bound), a unary symbol needs one operand, a binary symbol needs two and leaves one.
  \<open>arity_run\<close> gives the final depth, or \<open>None\<close> when a symbol is outside the pools,
  lacks operands, or would exceed the bound.
\<close>

definition arity_step :: "nat \<Rightarrow> char \<Rightarrow> nat \<Rightarrow> nat option" where
  "arity_step bound ch depth =
     (if ch \<in> set nullary_pool then (if depth < bound then Some (Suc depth) else None)
      else if ch \<in> set unary_pool then (if 1 \<le> depth then Some depth else None)
      else if ch \<in> set binary_pool then (if 2 \<le> depth then Some (depth - 1) else None)
      else None)"

fun arity_run :: "nat \<Rightarrow> string \<Rightarrow> nat \<Rightarrow> nat option" where
  "arity_run bound [] depth = Some depth"
| "arity_run bound (ch # expr) depth =
     (case arity_step bound ch depth of
        None \<Rightarrow> None
      | Some depth' \<Rightarrow> arity_run bound expr depth')"

text \<open>The number of operands that a member of \<open>Composer\<close> takes from the stack.\<close>

fun arity :: "MemberFuncPtr \<Rightarrow> nat" where
  "arity Composer_x = 0"
| "arity Composer_zero = 0"
| "arity Composer_one = 0"
| "arity Composer_add = 2"
| "arity Composer_subtract = 2"
| "arity Composer_multiply = 2"
| "arity Composer_divide = 2"
| "arity func = 1"

text \<open>
  The invariant of the \<open>for\<close> loop of \<open>gen_random_expr\<close> at the head of iteration \<open>i\<close>,
  and what holds when the loop is left: the string generated so far is a well-formed
  prefix whose depth is the counter \<open>stack_size\<close>.
\<close>

definition gen_inv :: "nat \<Rightarrow> int \<Rightarrow> int \<Rightarrow> string \<Rightarrow> bool" where
  "gen_inv bound i stack_size result =
     (arity_run bound result 0 = Some (nat stack_size)
      \<and> (if i = 0 then stack_size = 0 else 1 \<le> stack_size)
      \<and> stack_size \<le> int (length result) \<and> int (length result) \<le> i)"

definition gen_post :: "nat \<Rightarrow> int \<Rightarrow> int \<Rightarrow> string \<Rightarrow> bool" where
  "gen_post bound len stack_size result =
     (arity_run bound result 0 = Some (nat stack_size)
      \<and> 1 \<le> stack_size \<and> stack_size \<le> max 1 (len - 2)
      \<and> 2 \<le> length result \<and> int (length result) \<le> len)"

subsection \<open>An arithmetic to run the composer on concrete inputs\<close>

text \<open>
  Integers in place of \<open>double\<close>, with the identity in place of the transcendental
  functions: enough to execute programs and observe the operand stack.
\<close>

definition toy_arith :: "int double_arith" where
  "toy_arith =
     \<lparr>lit_zero = 0, lit_one = 1, lit_minus_one = - 1, lit_two = 2,
      d_add = (\<lambda>a b. a + b), d_sub = (\<lambda>a b. a - b),
      d_mul = (\<lambda>a b. a * b), d_div = (\<lambda>a b. a sdiv b),
      d_sin = (\<lambda>v. v), d_cos = (\<lambda>v. v), d_tan = (\<lambda>v. v),
      d_sqrt = (\<lambda>v. v), d_log = (\<lambda>v. v)\<rparr>"

subsection \<open>The generator on unsigned integers\<close>

text \<open>
  The three steps of \<open>xorshift32\<close> and the conversion to \<open>int\<close>, on the unsigned
  value of the state: the same function as \<open>CustomGenerator_call\<close> (proved below), in a
  form that evaluates step by step on numerals.
\<close>

definition int_xs13 :: "int \<Rightarrow> int" where
  "int_xs13 k = take_bit 32 (k XOR push_bit 13 k)"

definition int_xs17 :: "int \<Rightarrow> int" where
  "int_xs17 k = k XOR drop_bit 17 k"

definition int_xs5 :: "int \<Rightarrow> int" where
  "int_xs5 k = take_bit 32 (k XOR push_bit 5 k)"

definition call_of_int :: "int \<Rightarrow> int \<times> CustomGenerator" where
  "call_of_int k =
     (if k < 2147483648 then k else k - 4294967296, \<lparr>state = word_of_int k\<rparr>)"


section \<open>Properties of the simplifier\<close>

lemma folded_Inr: "folded r = Inr (c, t') \<Longrightarrow> c \<and> (\<exists>v. t' = IntAST v)"
  by (auto simp: folded_def split: sum.splits)

lemma one_is_identity_cases:
  "one_is_identity node lhs rhs = (c, t') \<Longrightarrow>
     (c \<and> (t' = lhs \<or> t' = rhs)) \<or> (\<not> c \<and> t' = node)"
  by (auto simp: one_is_identity_def split: AST.splits if_splits)

text \<open>A visit either rewrites the node into a strictly smaller tree or leaves it alone.\<close>

lemma visit_cases:
  "visit t = Inr (c, t') \<Longrightarrow>
     (c \<and> node_count t' < node_count t) \<or> (\<not> c \<and> t' = t)"
  by (induction t rule: visit.induct)
     (auto dest!: folded_Inr one_is_identity_cases split: if_splits)

lemma visit_root_cases:
  assumes "visit_root t m = Inr (m', t')"
  shows "(m' \<and> node_count t' < node_count t) \<or> (m' = m \<and> t' = t)"
  using assms visit_cases [of t]
  by (auto simp: visit_root_def split: sum.splits prod.splits if_splits)

lemma simplify_pass_helper_cases:
  "simplify_pass_helper t m = Inr (m', t') \<Longrightarrow>
     (m' \<and> node_count t' < node_count t) \<or> (m' = m \<and> t' = t)"
proof (induction t m arbitrary: m' t' rule: simplify_pass_helper.induct)
  case (1 name argument modified)
  then obtain m1 a' where a: "simplify_pass_helper argument modified = Inr (m1, a')"
    and v: "visit_root (FuncAST name a') m1 = Inr (m', t')"
    by (auto split: sum.splits)
  from "1.IH" [OF a] visit_root_cases [OF v] show ?case by auto
next
  case (2 op lhs rhs modified)
  then obtain m1 l' m2 r' where l: "simplify_pass_helper lhs modified = Inr (m1, l')"
    and r: "simplify_pass_helper rhs m1 = Inr (m2, r')"
    and v: "visit_root (BinaryOperatorAST op l' r') m2 = Inr (m', t')"
    by (auto split: sum.splits)
  have r': "(m2 \<and> node_count r' < node_count rhs) \<or> (m2 = m1 \<and> r' = rhs)"
    using "2.IH"(2) [OF _ _ r] l by simp
  from "2.IH"(1) [OF l] r' visit_root_cases [OF v] show ?case by auto
next
  case "3_1"
  then show ?case by (auto dest: visit_root_cases)
next
  case "3_2"
  then show ?case by (auto dest: visit_root_cases)
next
  case "3_3"
  then show ?case by (auto dest: visit_root_cases)
qed

text \<open>A pass that reports a change has shrunk the tree; one that reports none has kept it.\<close>

lemma simplify_pass_cases:
  "simplify_pass t = Inr (m, t') \<Longrightarrow>
     (m \<and> node_count t' < node_count t) \<or> (\<not> m \<and> t' = t)"
  unfolding simplify_pass_def by (drule simplify_pass_helper_cases) auto

text \<open>
  The loop of \<open>simplify\<close> ends on every tree, by induction on the node count; when it ends
  with a tree, that tree is no larger and the next pass leaves it unchanged.
\<close>

lemma simplify_result:
  "\<exists>r. simplify t = Some r \<and>
        (\<forall>u. r = Inr u \<longrightarrow> node_count u \<le> node_count t \<and> simplify_pass u = Inr (False, u))"
proof (induction "node_count t" arbitrary: t rule: less_induct)
  case less
  show ?case
  proof (cases "simplify_pass t")
    case (Inl e)
    then show ?thesis by (subst simplify.simps) simp
  next
    case (Inr p)
    obtain m t' where p: "p = (m, t')" by (cases p)
    show ?thesis
    proof (cases m)
      case True
      with Inr p simplify_pass_cases [of t m t'] have lt: "node_count t' < node_count t"
        by simp
      from less [OF lt] obtain r where r: "simplify t' = Some r"
        and ru: "\<forall>u. r = Inr u \<longrightarrow>
                   node_count u \<le> node_count t' \<and> simplify_pass u = Inr (False, u)"
        by blast
      have "simplify t = Some r"
        using Inr p True r by (subst simplify.simps) simp
      with ru lt show ?thesis by auto
    next
      case False
      with Inr p simplify_pass_cases [of t m t'] have eq: "t' = t" by simp
      have "simplify t = Some (Inr t)"
        using Inr p False eq by (subst simplify.simps) simp
      with Inr p False eq show ?thesis by simp
    qed
  qed
qed

lemma simplify_fixed: "simplify_pass u = Inr (False, u) \<Longrightarrow> simplify u = Some (Inr u)"
  by (subst simplify.simps) simp

text \<open>
  Claim C1. The specification says that a division of two integer constants is folded only
  when the remainder is zero and is left as it is otherwise. In the source the case
  \<open>'/'\<close> of the switch has no \<open>break\<close>, so a division with a non-zero remainder falls
  through to the case \<open>'^'\<close> and is replaced by the power: the node \<open>3 / 2\<close> becomes the
  constant \<open>9\<close>, and the postfix string \<open>1>>H\<close> (that is \<open>((1 + 1) + 1) / 2\<close>) prints
  as \<open>9\<close>.
\<close>

theorem visit_division_falls_through_to_power:
  "visit (BinaryOperatorAST \<lparr>symbol = CHR ''/'', precedence = 60\<rparr> (IntAST 3) (IntAST 2))
     = Inr (True, IntAST 9)
   \<and> infix_from_reverse_polish ''1>>H'' = Some (Inr ''9'')"
  by code_simp

text \<open>
  Claim C2. The postfix string made of \<open>x\<close> and a backslash parses to the node
  \<open>1 / x\<close>, as the specification says, but the rule commented "the integer 1 is the
  multiplication identity" does not look at the operator: the simplifier replaces the
  node by its right operand and the program prints \<open>x\<close>, not \<open>1 / x\<close>.
\<close>

theorem reciprocal_prints_as_its_operand:
  "parse_reverse_polish [CHR ''x'', CHR 0x5C] =
     Inr (BinaryOperatorAST \<lparr>symbol = CHR ''/'', precedence = 60\<rparr>
            (IntAST 1) (VariableAST ''x''))
   \<and> infix_from_reverse_polish [CHR ''x'', CHR 0x5C] = Some (Inr ''x'')"
  by code_simp

text \<open>
  Claim C3. A binary node one of whose operands is the constant 1, and whose other operand
  is not an integer constant (so that the constant-folding rule does not apply), is replaced
  by the other operand in one visit, whatever its operator: \<open>x - 1\<close> and \<open>1 / x\<close>
  both simplify to \<open>x\<close>.
\<close>

theorem visit_one_collapses_any_operator:
  "(\<not> is_IntAST rhs \<longrightarrow> visit (BinaryOperatorAST op (IntAST 1) rhs) = Inr (True, rhs))
   \<and> (\<not> is_IntAST lhs \<longrightarrow> visit (BinaryOperatorAST op lhs (IntAST 1)) = Inr (True, lhs))
   \<and> simplify (BinaryOperatorAST \<lparr>symbol = CHR ''-'', precedence = 50\<rparr>
                 (VariableAST ''x'') (IntAST 1)) = Some (Inr (VariableAST ''x''))
   \<and> simplify (BinaryOperatorAST \<lparr>symbol = CHR ''/'', precedence = 60\<rparr>
                 (IntAST 1) (VariableAST ''x'')) = Some (Inr (VariableAST ''x''))"
proof (intro conjI impI)
  assume "\<not> is_IntAST rhs"
  then show "visit (BinaryOperatorAST op (IntAST 1) rhs) = Inr (True, rhs)"
    by (cases rhs) (simp_all add: one_is_identity_def)
next
  assume "\<not> is_IntAST lhs"
  then show "visit (BinaryOperatorAST op lhs (IntAST 1)) = Inr (True, lhs)"
    by (cases lhs) (simp_all add: one_is_identity_def)
next
  show "simplify (BinaryOperatorAST \<lparr>symbol = CHR ''-'', precedence = 50\<rparr>
                 (VariableAST ''x'') (IntAST 1)) = Some (Inr (VariableAST ''x''))"
    by code_simp
next
  show "simplify (BinaryOperatorAST \<lparr>symbol = CHR ''/'', precedence = 60\<rparr>
                 (IntAST 1) (VariableAST ''x'')) = Some (Inr (VariableAST ''x''))"
    by code_simp
qed

theorem visit_one_collapses_any_operator_witness:
  "\<not> is_IntAST (FuncAST ''sin'' (VariableAST ''x''))
   \<and> visit (BinaryOperatorAST \<lparr>symbol = CHR ''^'', precedence = 70\<rparr>
              (IntAST 1) (FuncAST ''sin'' (VariableAST ''x'')))
       = Inr (True, FuncAST ''sin'' (VariableAST ''x''))
   \<and> visit (BinaryOperatorAST \<lparr>symbol = CHR ''^'', precedence = 70\<rparr>
              (FuncAST ''sin'' (VariableAST ''x'')) (IntAST 1))
       = Inr (True, FuncAST ''sin'' (VariableAST ''x''))"
  using visit_one_collapses_any_operator
          [of "FuncAST ''sin'' (VariableAST ''x'')" "\<lparr>symbol = CHR ''^'', precedence = 70\<rparr>"
              "FuncAST ''sin'' (VariableAST ''x'')"]
  by simp

text \<open>
  Claim C6. Every rewrite that \<open>visit\<close> performs strictly reduces the node count. Hence
  the loop of \<open>simplify\<close> ends on every tree (with a tree, or at an operation that C++
  leaves undefined), and a tree it returns has no more nodes than the tree it was given.
\<close>

theorem simplify_terminates_and_shrinks:
  "(visit t = Inr (True, t') \<longrightarrow> node_count t' < node_count t)
   \<and> (\<exists>r. simplify t = Some r)
   \<and> (simplify t = Some (Inr u) \<longrightarrow> node_count u \<le> node_count t)"
proof (intro conjI impI)
  assume "visit t = Inr (True, t')"
  then show "node_count t' < node_count t" by (auto dest: visit_cases)
next
  show "\<exists>r. simplify t = Some r" using simplify_result [of t] by blast
next
  assume "simplify t = Some (Inr u)"
  then show "node_count u \<le> node_count t" using simplify_result [of t] by auto
qed

theorem simplify_terminates_and_shrinks_witness:
  "visit (NegativeOperatorAST (NegativeOperatorAST (VariableAST ''x'')))
     = Inr (True, VariableAST ''x'')
   \<and> node_count (VariableAST ''x'')
       < node_count (NegativeOperatorAST (NegativeOperatorAST (VariableAST ''x'')))
   \<and> simplify (NegativeOperatorAST (NegativeOperatorAST (VariableAST ''x'')))
       = Some (Inr (VariableAST ''x''))
   \<and> node_count (VariableAST ''x'')
       \<le> node_count (NegativeOperatorAST (NegativeOperatorAST (VariableAST ''x'')))"
proof -
  have s: "simplify (NegativeOperatorAST (NegativeOperatorAST (VariableAST ''x'')))
             = Some (Inr (VariableAST ''x''))"
    by code_simp
  show ?thesis
    using s simplify_terminates_and_shrinks
              [of "NegativeOperatorAST (NegativeOperatorAST (VariableAST ''x''))"
                  "VariableAST ''x''" "VariableAST ''x''"]
    by simp
qed

text \<open>
  Claim C7. \<open>simplify\<close> is idempotent: when it returns a tree, simplifying that tree again
  returns the same tree.
\<close>

theorem simplify_idempotent:
  "simplify t = Some (Inr u) \<Longrightarrow> simplify u = Some (Inr u)"
  using simplify_result [of t] by (auto intro: simplify_fixed)

theorem simplify_idempotent_witness:
  "simplify (FuncAST ''sin'' (BinaryOperatorAST \<lparr>symbol = CHR ''+'', precedence = 50\<rparr>
               (IntAST 1) (IntAST 1)))
     = Some (Inr (FuncAST ''sin'' (IntAST 2)))
   \<and> simplify (FuncAST ''sin'' (IntAST 2)) = Some (Inr (FuncAST ''sin'' (IntAST 2)))"
proof -
  have b: "simplify (FuncAST ''sin'' (BinaryOperatorAST \<lparr>symbol = CHR ''+'', precedence = 50\<rparr>
               (IntAST 1) (IntAST 1)))
     = Some (Inr (FuncAST ''sin'' (IntAST 2)))"
    by code_simp
  from b simplify_idempotent [OF b] show ?thesis by simp
qed

section \<open>Properties of the infix printer\<close>

lemma valid_Operator_precedence:
  "valid_Operator op \<Longrightarrow>
     precedence op = spec_precedence (symbol op) \<and> symbol op \<in> set ''+-*/^''"
  by (cases op)
     (auto simp: valid_Operator_def mk_Operator_def eval_precedence_def spec_precedence_def
           split: if_splits)

lemma wrap_left_eq:
  assumes "valid_Operator op" "well_formed lhs"
  shows "(case lhs of
            BinaryOperatorAST p_op _ _ \<Rightarrow>
              if precedence p_op < precedence op then parens s else s
          | _ \<Rightarrow> s) = spec_render (spec_wrap_left (symbol op) lhs) s"
  using assms
  by (cases lhs)
     (auto simp: spec_render_def spec_wrap_left_def parens_def dest!: valid_Operator_precedence)

lemma wrap_right_eq:
  assumes "valid_Operator op" "well_formed rhs"
  shows "(let rhs_str = (case rhs of
                           BinaryOperatorAST p_op _ _ \<Rightarrow>
                             if precedence p_op < precedence op then parens s else s
                         | _ \<Rightarrow> s)
          in (if symbol op = CHR ''/'' \<or> symbol op = CHR ''-''
              then (case rhs of
                      BinaryOperatorAST p_op _ _ \<Rightarrow>
                        if symbol p_op = symbol op then parens rhs_str else rhs_str
                    | _ \<Rightarrow> rhs_str)
              else rhs_str)) = spec_render (spec_wrap_right (symbol op) rhs) s"
  using assms
  by (cases rhs)
     (auto simp: spec_render_def spec_wrap_right_def parens_def Let_def
           dest!: valid_Operator_precedence)

text \<open>
  Claim C8. For a tree whose operators were built by the constructor of \<open>Operator\<close>, the
  printer renders a binary node as left operand, space, symbol, space, right operand, and
  wraps an operand in one pair of parentheses exactly under the conditions of the
  specification: a binary operand of strictly lower precedence (50 for \<open>+\<close> and \<open>-\<close>, 60
  for \<open>*\<close> and \<open>/\<close>, 70 for \<open>^\<close>), or, on the right of \<open>/\<close> or \<open>-\<close>, a binary operand
  with the same symbol. The postfix string \<open>xx+x*\<close> parses to \<open>(x + x) * x\<close> and prints
  so.
\<close>

theorem to_string_parenthesises_as_specified:
  "(well_formed (BinaryOperatorAST op lhs rhs) \<longrightarrow>
      precedence op = spec_precedence (symbol op)
      \<and> to_string (BinaryOperatorAST op lhs rhs) =
          spec_render (spec_wrap_left (symbol op) lhs) (to_string lhs)
          @ '' '' @ [symbol op] @ '' '' @
          spec_render (spec_wrap_right (symbol op) rhs) (to_string rhs))
   \<and> parse_reverse_polish ''xx+x*'' =
       Inr (BinaryOperatorAST \<lparr>symbol = CHR ''*'', precedence = 60\<rparr>
              (BinaryOperatorAST \<lparr>symbol = CHR ''+'', precedence = 50\<rparr>
                 (VariableAST ''x'') (VariableAST ''x''))
              (VariableAST ''x''))
   \<and> infix_from_reverse_polish ''xx+x*'' = Some (Inr ''(x + x) * x'')"
proof (intro conjI impI)
  assume wf: "well_formed (BinaryOperatorAST op lhs rhs)"
  then have v: "valid_Operator op" and l: "well_formed lhs" and r: "well_formed rhs"
    by simp_all
  from v show "precedence op = spec_precedence (symbol op)"
    by (simp add: valid_Operator_precedence)
  show "to_string (BinaryOperatorAST op lhs rhs) =
          spec_render (spec_wrap_left (symbol op) lhs) (to_string lhs)
          @ '' '' @ [symbol op] @ '' '' @
          spec_render (spec_wrap_right (symbol op) rhs) (to_string rhs)"
    using wrap_left_eq [OF v l, of "to_string lhs"] wrap_right_eq [OF v r, of "to_string rhs"]
    by (simp add: Let_def)
next
  show "parse_reverse_polish ''xx+x*'' =
       Inr (BinaryOperatorAST \<lparr>symbol = CHR ''*'', precedence = 60\<rparr>
              (BinaryOperatorAST \<lparr>symbol = CHR ''+'', precedence = 50\<rparr>
                 (VariableAST ''x'') (VariableAST ''x''))
              (VariableAST ''x''))"
    by code_simp
next
  show "infix_from_reverse_polish ''xx+x*'' = Some (Inr ''(x + x) * x'')"
    by code_simp
qed

theorem to_string_parenthesises_as_specified_witness:
  "well_formed (BinaryOperatorAST \<lparr>symbol = CHR ''-'', precedence = 50\<rparr>
                  (BinaryOperatorAST \<lparr>symbol = CHR ''+'', precedence = 50\<rparr>
                     (VariableAST ''a'') (VariableAST ''b''))
                  (BinaryOperatorAST \<lparr>symbol = CHR ''-'', precedence = 50\<rparr>
                     (VariableAST ''c'') (VariableAST ''x'')))
   \<and> to_string (BinaryOperatorAST \<lparr>symbol = CHR ''-'', precedence = 50\<rparr>
                  (BinaryOperatorAST \<lparr>symbol = CHR ''+'', precedence = 50\<rparr>
                     (VariableAST ''a'') (VariableAST ''b''))
                  (BinaryOperatorAST \<lparr>symbol = CHR ''-'', precedence = 50\<rparr>
                     (VariableAST ''c'') (VariableAST ''x'')))
       = ''a + b - (c - x)''"
proof -
  have wf: "well_formed (BinaryOperatorAST \<lparr>symbol = CHR ''-'', precedence = 50\<rparr>
                  (BinaryOperatorAST \<lparr>symbol = CHR ''+'', precedence = 50\<rparr>
                     (VariableAST ''a'') (VariableAST ''b''))
                  (BinaryOperatorAST \<lparr>symbol = CHR ''-'', precedence = 50\<rparr>
                     (VariableAST ''c'') (VariableAST ''x'')))"
    by code_simp
  have ts: "to_string (BinaryOperatorAST \<lparr>symbol = CHR ''-'', precedence = 50\<rparr>
                  (BinaryOperatorAST \<lparr>symbol = CHR ''+'', precedence = 50\<rparr>
                     (VariableAST ''a'') (VariableAST ''b''))
                  (BinaryOperatorAST \<lparr>symbol = CHR ''-'', precedence = 50\<rparr>
                     (VariableAST ''c'') (VariableAST ''x'')))
       = ''a + b - (c - x)''"
    by code_simp
  show ?thesis
    using wf ts to_string_parenthesises_as_specified
               [of "\<lparr>symbol = CHR ''-'', precedence = 50\<rparr>"
                   "BinaryOperatorAST \<lparr>symbol = CHR ''+'', precedence = 50\<rparr>
                      (VariableAST ''a'') (VariableAST ''b'')"
                   "BinaryOperatorAST \<lparr>symbol = CHR ''-'', precedence = 50\<rparr>
                      (VariableAST ''c'') (VariableAST ''x'')"]
    by blast
qed

section \<open>Properties of the generator and the evaluator\<close>

subsection \<open>Well-formed strings\<close>

lemma arity_run_append:
  "arity_run bound (s @ t) d =
     (case arity_run bound s d of None \<Rightarrow> None | Some d' \<Rightarrow> arity_run bound t d')"
  by (induction s arbitrary: d) (auto split: option.splits)

lemma arity_run_snoc:
  "arity_run bound s d = Some d' \<Longrightarrow> arity_run bound (s @ [ch]) d = arity_step bound ch d'"
  by (simp add: arity_run_append split: option.splits)

lemma draw_random_symbol_in:
  assumes "arr \<noteq> []"
  shows "\<exists>ch g'. draw_random_symbol arr g = (ch, g') \<and> ch \<in> set arr"
proof -
  obtain r g' where c: "CustomGenerator_call g = (r, g')" by (cases "CustomGenerator_call g")
  have "0 < int (length arr)" using assms by simp
  then have "nat ((r mod 2 ^ 64) mod int (length arr)) < length arr"
    by (metis nat_less_iff pos_mod_bound pos_mod_sign)
  then show ?thesis using c by (simp add: draw_random_symbol_def)
qed

lemma pools_disjoint:
  "ch \<in> set unary_pool \<Longrightarrow> ch \<notin> set nullary_pool"
  "ch \<in> set binary_pool \<Longrightarrow> ch \<notin> set nullary_pool"
  "ch \<in> set binary_pool \<Longrightarrow> ch \<notin> set unary_pool"
  by (auto simp: nullary_pool_def unary_pool_def binary_pool_def)

lemma arity_step_nullary:
  "ch \<in> set nullary_pool \<Longrightarrow> d < bound \<Longrightarrow> arity_step bound ch d = Some (Suc d)"
  by (simp add: arity_step_def)

lemma arity_step_unary:
  "ch \<in> set unary_pool \<Longrightarrow> 1 \<le> d \<Longrightarrow> arity_step bound ch d = Some d"
  by (simp add: arity_step_def pools_disjoint)

lemma arity_step_binary:
  "ch \<in> set binary_pool \<Longrightarrow> 2 \<le> d \<Longrightarrow> arity_step bound ch d = Some (d - 1)"
  by (simp add: arity_step_def pools_disjoint)

lemma int_rem_roof:
  assumes "0 \<le> stack_size"
  shows "\<exists>drawn. int_rem r (if 2 \<le> stack_size then 3 else stack_size + 1) = Inr drawn
           \<and> (stack_size = 0 \<longrightarrow> drawn = 0)
           \<and> (stack_size = 1 \<longrightarrow> drawn \<noteq> 2)"
proof -
  have "r smod 1 = 0" by (simp add: smod_int_alt_def)
  moreover have "r smod 2 \<noteq> 2"
    using smod_int_range [where a = r and b = 2] by auto
  ultimately show ?thesis using assms by (auto simp: int_rem_def)
qed

lemma pools_nonempty:
  "nullary_pool \<noteq> []" "unary_pool \<noteq> []" "binary_pool \<noteq> []"
  by (simp_all add: nullary_pool_def unary_pool_def binary_pool_def)

lemma gen_step_choice:
  assumes "CustomGenerator_call g = (r, g1)"
    and "int_rem r (if 2 \<le> stack_size then 3 else stack_size + 1) = Inr drawn"
  shows "gen_step is_last stack_size result g =
           (let choice = (if is_last then (if stack_size = 1 then 1 else 2) else drawn) in
            if choice = 0 then
              (case draw_random_symbol nullary_pool g1 of
                 (ch, g2) \<Rightarrow> Inr (result @ [ch], stack_size + 1, g2))
            else if choice = 1 then
              (case draw_random_symbol unary_pool g1 of
                 (ch, g2) \<Rightarrow> Inr (result @ [ch], stack_size, g2))
            else if choice = 2 then
              (case draw_random_symbol binary_pool g1 of
                 (ch, g2) \<Rightarrow> Inr (result @ [ch], stack_size - 1, g2))
            else Inr (result, stack_size, g1))"
  unfolding gen_step_def using assms by (simp only: Let_def prod.case sum.case)

lemma gen_step_nullary:
  assumes "CustomGenerator_call g = (r, g1)"
    and "int_rem r (if 2 \<le> stack_size then 3 else stack_size + 1) = Inr 0"
    and "arity_run bound result 0 = Some (nat stack_size)" "0 \<le> stack_size"
    and "nat stack_size < bound"
  shows "\<exists>ch g'. gen_step False stack_size result g = Inr (result @ [ch], stack_size + 1, g')
           \<and> arity_run bound (result @ [ch]) 0 = Some (nat (stack_size + 1))"
proof -
  obtain c0 g0 where n: "draw_random_symbol nullary_pool g1 = (c0, g0)" "c0 \<in> set nullary_pool"
    using draw_random_symbol_in [OF pools_nonempty(1), of g1] by blast
  have "arity_run bound (result @ [c0]) 0 = Some (nat (stack_size + 1))"
    using assms(3-5) n(2) by (simp add: arity_run_snoc arity_step_nullary nat_add_distrib)
  moreover have "gen_step False stack_size result g = Inr (result @ [c0], stack_size + 1, g0)"
    by (simp add: gen_step_choice [OF assms(1,2)] n)
  ultimately show ?thesis by blast
qed

lemma gen_step_unary:
  assumes "CustomGenerator_call g = (r, g1)"
    and "int_rem r (if 2 \<le> stack_size then 3 else stack_size + 1) = Inr drawn"
    and "(is_last \<and> stack_size = 1) \<or> (\<not> is_last \<and> drawn = 1)"
    and "arity_run bound result 0 = Some (nat stack_size)" "1 \<le> stack_size"
  shows "\<exists>ch g'. gen_step is_last stack_size result g = Inr (result @ [ch], stack_size, g')
           \<and> arity_run bound (result @ [ch]) 0 = Some (nat stack_size)"
proof -
  obtain c1 gu where u: "draw_random_symbol unary_pool g1 = (c1, gu)" "c1 \<in> set unary_pool"
    using draw_random_symbol_in [OF pools_nonempty(2), of g1] by blast
  have "arity_run bound (result @ [c1]) 0 = Some (nat stack_size)"
    using assms(4,5) u(2) by (simp add: arity_run_snoc arity_step_unary)
  moreover have "gen_step is_last stack_size result g = Inr (result @ [c1], stack_size, gu)"
    using assms(3) by (auto simp: gen_step_choice [OF assms(1,2)] u)
  ultimately show ?thesis by blast
qed

lemma gen_step_binary:
  assumes "CustomGenerator_call g = (r, g1)"
    and "int_rem r (if 2 \<le> stack_size then 3 else stack_size + 1) = Inr drawn"
    and "(is_last \<and> stack_size \<noteq> 1) \<or> (\<not> is_last \<and> drawn = 2)"
    and "arity_run bound result 0 = Some (nat stack_size)" "2 \<le> stack_size"
  shows "\<exists>ch g'. gen_step is_last stack_size result g = Inr (result @ [ch], stack_size - 1, g')
           \<and> arity_run bound (result @ [ch]) 0 = Some (nat (stack_size - 1))"
proof -
  obtain c2 gb where b: "draw_random_symbol binary_pool g1 = (c2, gb)" "c2 \<in> set binary_pool"
    using draw_random_symbol_in [OF pools_nonempty(3), of g1] by blast
  have "arity_run bound (result @ [c2]) 0 = Some (nat (stack_size - 1))"
    using assms(4,5) b(2) by (simp add: arity_run_snoc arity_step_binary nat_diff_distrib)
  moreover have "gen_step is_last stack_size result g = Inr (result @ [c2], stack_size - 1, gb)"
    using assms(3) by (auto simp: gen_step_choice [OF assms(1,2)] b)
  ultimately show ?thesis by blast
qed

lemma gen_step_none:
  assumes "CustomGenerator_call g = (r, g1)"
    and "int_rem r (if 2 \<le> stack_size then 3 else stack_size + 1) = Inr drawn"
    and "drawn \<noteq> 0" "drawn \<noteq> 1" "drawn \<noteq> 2"
  shows "gen_step False stack_size result g = Inr (result, stack_size, g1)"
  using assms(3-5) by (simp add: gen_step_choice [OF assms(1,2)])

lemma gen_step_inv:
  assumes len: "2 \<le> len" and i: "0 \<le> i" "i < len" and B: "len - 1 \<le> int bound"
    and inv: "gen_inv bound i stack_size result"
  shows "\<exists>result' stack_size' g'.
           gen_step (i = len - 1) stack_size result g = Inr (result', stack_size', g')
           \<and> (if i + 1 < len then gen_inv bound (i + 1) stack_size' result'
                else gen_post bound len stack_size' result')"
proof -
  from inv have run: "arity_run bound result 0 = Some (nat stack_size)"
    and ss: "if i = 0 then stack_size = 0 else 1 \<le> stack_size"
    and sl: "stack_size \<le> int (length result)" and li: "int (length result) \<le> i"
    by (simp_all add: gen_inv_def)
  have ss0: "0 \<le> stack_size" using ss by (simp split: if_splits)
  obtain r g1 where call: "CustomGenerator_call g = (r, g1)"
    by (cases "CustomGenerator_call g")
  from int_rem_roof [OF ss0, of r] obtain drawn
    where rem: "int_rem r (if 2 \<le> stack_size then 3 else stack_size + 1) = Inr drawn"
      and d0: "stack_size = 0 \<longrightarrow> drawn = 0" and d1: "stack_size = 1 \<longrightarrow> drawn \<noteq> 2"
    by blast
  show ?thesis
  proof (cases "i = len - 1")
    case True
    then have i1: "1 \<le> i" and nl: "\<not> i + 1 < len" using len by simp_all
    with ss have s1: "1 \<le> stack_size" by simp
    show ?thesis
    proof (cases "stack_size = 1")
      case one: True
      from gen_step_unary [OF call rem _ run s1, of True] one True
      obtain ch g' where "gen_step (i = len - 1) stack_size result g = Inr (result @ [ch], stack_size, g')"
        and "arity_run bound (result @ [ch]) 0 = Some (nat stack_size)"
        by auto
      moreover have "gen_post bound len stack_size (result @ [ch])"
        using calculation(2) one sl li True len by (simp add: gen_post_def)
      ultimately show ?thesis using nl by auto
    next
      case False
      with s1 have s2: "2 \<le> stack_size" by simp
      from gen_step_binary [OF call rem _ run s2, of True] False True
      obtain ch g' where "gen_step (i = len - 1) stack_size result g = Inr (result @ [ch], stack_size - 1, g')"
        and "arity_run bound (result @ [ch]) 0 = Some (nat (stack_size - 1))"
        by auto
      moreover have "gen_post bound len (stack_size - 1) (result @ [ch])"
        using calculation(2) s2 sl li True len by (simp add: gen_post_def)
      ultimately show ?thesis using nl by auto
    qed
  next
    case False
    then have i2: "i + 1 < len" using i by simp
    have room: "nat stack_size < bound" using sl li i2 B by linarith
    consider "drawn = 0" | "drawn = 1" | "drawn = 2" | "drawn \<noteq> 0" "drawn \<noteq> 1" "drawn \<noteq> 2"
      by blast
    then show ?thesis
    proof cases
      case 1
      from gen_step_nullary [OF call rem [unfolded 1] run ss0 room] False
      obtain ch g' where "gen_step (i = len - 1) stack_size result g = Inr (result @ [ch], stack_size + 1, g')"
        and "arity_run bound (result @ [ch]) 0 = Some (nat (stack_size + 1))"
        by auto
      moreover have "gen_inv bound (i + 1) (stack_size + 1) (result @ [ch])"
        using calculation(2) ss0 sl li i by (simp add: gen_inv_def)
      ultimately show ?thesis using i2 by auto
    next
      case 2
      have s1: "1 \<le> stack_size" using d0 2 ss0 by (cases "stack_size = 0") auto
      from gen_step_unary [OF call rem _ run s1, of False] 2 False
      obtain ch g' where "gen_step (i = len - 1) stack_size result g = Inr (result @ [ch], stack_size, g')"
        and "arity_run bound (result @ [ch]) 0 = Some (nat stack_size)"
        by auto
      moreover have "gen_inv bound (i + 1) stack_size (result @ [ch])"
        using calculation(2) s1 sl li i by (simp add: gen_inv_def)
      ultimately show ?thesis using i2 by auto
    next
      case 3
      have s2: "2 \<le> stack_size" using d0 d1 3 ss0
        by (cases "stack_size = 0"; cases "stack_size = 1") auto
      from gen_step_binary [OF call rem _ run s2, of False] 3 False
      obtain ch g' where "gen_step (i = len - 1) stack_size result g = Inr (result @ [ch], stack_size - 1, g')"
        and "arity_run bound (result @ [ch]) 0 = Some (nat (stack_size - 1))"
        by auto
      moreover have "gen_inv bound (i + 1) (stack_size - 1) (result @ [ch])"
        using calculation(2) s2 sl li i by (simp add: gen_inv_def)
      ultimately show ?thesis using i2 by auto
    next
      case 4
      have s1: "1 \<le> stack_size" using d0 4 ss0 by (cases "stack_size = 0") auto
      have "gen_step (i = len - 1) stack_size result g = Inr (result, stack_size, g1)"
        using gen_step_none [OF call rem 4] False by simp
      moreover have "gen_inv bound (i + 1) stack_size result"
        using run s1 sl li i by (simp add: gen_inv_def)
      ultimately show ?thesis using i2 by auto
    qed
  qed
qed

lemma gen_for_post:
  "2 \<le> len \<Longrightarrow> len - 1 \<le> int bound \<Longrightarrow> 0 \<le> i \<Longrightarrow> i < len \<Longrightarrow>
   gen_inv bound i stack_size result \<Longrightarrow>
   \<exists>result' stack_size' g'.
     gen_for i len stack_size result g = Inr (result', stack_size', g')
     \<and> gen_post bound len stack_size' result'"
proof (induction i len stack_size result g rule: gen_for.induct)
  case (1 i len stack_size result g)
  note len = \<open>2 \<le> len\<close> and B = \<open>len - 1 \<le> int bound\<close>
    and i = \<open>0 \<le> i\<close> \<open>i < len\<close> and inv = \<open>gen_inv bound i stack_size result\<close>
  from gen_step_inv [OF len i B inv, of g]
  obtain r1 s1 g1 where st: "gen_step (i = len - 1) stack_size result g = Inr (r1, s1, g1)"
    and nx: "if i + 1 < len then gen_inv bound (i + 1) s1 r1 else gen_post bound len s1 r1"
    by blast
  show ?case
  proof (cases "i + 1 < len")
    case True
    with nx have inv': "gen_inv bound (i + 1) s1 r1" by simp
    have "\<exists>result' stack_size' g'.
            gen_for (i + 1) len s1 r1 g1 = Inr (result', stack_size', g')
            \<and> gen_post bound len stack_size' result'"
      using "1.IH" [OF i(2) st refl refl len B _ True inv'] i(1) by simp
    then show ?thesis
      using st i(2) by (subst gen_for.simps) simp
  next
    case False
    with nx have post: "gen_post bound len s1 r1" by simp
    have "gen_for (i + 1) len s1 r1 g1 = Inr (r1, s1, g1)"
      using False by (subst gen_for.simps) simp
    then show ?thesis
      using st post i(2) by (subst gen_for.simps) simp
  qed
qed

lemma gen_while_run:
  "1 \<le> stack_size \<Longrightarrow> arity_run bound result 0 = Some (nat stack_size) \<Longrightarrow>
   \<exists>result' g'. gen_while stack_size result g = (result', g')
     \<and> arity_run bound result' 0 = Some 1
     \<and> int (length result') = int (length result) + (stack_size - 1)"
proof (induction stack_size result g rule: gen_while.induct)
  case (1 stack_size result g)
  show ?case
  proof (cases "1 < stack_size")
    case True
    obtain ch g1 where b: "draw_random_symbol binary_pool g = (ch, g1)" "ch \<in> set binary_pool"
      using draw_random_symbol_in [OF pools_nonempty(3), of g] by blast
    have run': "arity_run bound (result @ [ch]) 0 = Some (nat (stack_size - 1))"
      using "1.prems"(2) b(2) True
      by (simp add: arity_run_snoc arity_step_binary nat_diff_distrib)
    from "1.IH" [OF True b(1) [symmetric] _ run'] True
    obtain result' g' where "gen_while (stack_size - 1) (result @ [ch]) g1 = (result', g')"
      and "arity_run bound result' 0 = Some 1"
      and "int (length result') = int (length (result @ [ch])) + (stack_size - 1 - 1)"
      by auto
    then show ?thesis
      using True b(1) by (subst gen_while.simps) simp
  next
    case False
    with "1.prems" have "stack_size = 1" by simp
    then show ?thesis
      using "1.prems"(2) by (subst gen_while.simps) simp
  qed
qed

lemma gen_random_expr_valid:
  assumes "2 \<le> len" "len - 1 \<le> int bound"
  shows "\<exists>result g'. gen_random_expr len g = Inr (result, g')
           \<and> arity_run bound result 0 = Some 1
           \<and> 2 \<le> length result
           \<and> int (length result) \<le> max len (2 * len - 3)"
proof -
  have "gen_inv bound 0 0 []" by (simp add: gen_inv_def)
  from gen_for_post [OF assms _ _ this, of g] assms(1)
  obtain r1 s1 g1 where f: "gen_for 0 len 0 [] g = Inr (r1, s1, g1)"
    and post: "gen_post bound len s1 r1"
    by auto
  from post have run: "arity_run bound r1 0 = Some (nat s1)" and s: "1 \<le> s1" "s1 \<le> max 1 (len - 2)"
    and l: "2 \<le> length r1" "int (length r1) \<le> len"
    by (simp_all add: gen_post_def)
  from gen_while_run [OF s(1) run, of g1]
  obtain result g' where w: "gen_while s1 r1 g1 = (result, g')"
    and run': "arity_run bound result 0 = Some 1"
    and len': "int (length result) = int (length r1) + (s1 - 1)"
    by blast
  have "gen_random_expr len g = Inr (result, g')"
    using f w by (simp add: gen_random_expr_def)
  moreover have "2 \<le> length result" using len' l(1) s(1) by linarith
  moreover have "int (length result) \<le> max len (2 * len - 3)" using len' l(2) s(2) by linarith
  ultimately show ?thesis using run' by blast
qed

lemma operator_dict_pools:
  "\<forall>ch \<in> set nullary_pool. \<exists>f. operator_dict ch = Inr f \<and> arity f = 0"
  "\<forall>ch \<in> set unary_pool. \<exists>f. operator_dict ch = Inr f \<and> arity f = 1"
  "\<forall>ch \<in> set binary_pool. \<exists>f. operator_dict ch = Inr f \<and> arity f = 2"
  unfolding nullary_pool_def unary_pool_def binary_pool_def
  by (simp_all add: operator_dict_def)

lemma operator_dict_nullary:
  "ch \<in> set nullary_pool \<Longrightarrow> \<exists>f. operator_dict ch = Inr f \<and> arity f = 0"
  using operator_dict_pools(1) by blast

lemma operator_dict_unary:
  "ch \<in> set unary_pool \<Longrightarrow> \<exists>f. operator_dict ch = Inr f \<and> arity f = 1"
  using operator_dict_pools(2) by blast

lemma operator_dict_binary:
  "ch \<in> set binary_pool \<Longrightarrow> \<exists>f. operator_dict ch = Inr f \<and> arity f = 2"
  using operator_dict_pools(3) by blast

lemma call_nullary:
  "arity f = 0 \<Longrightarrow>
     \<exists>c'. call ar f c = Inr c' \<and> pushes f
       \<and> length (stack c') = (if length (stack c) < expr_max_size
                                then Suc (length (stack c)) else length (stack c))
       \<and> x_value c' = x_value c \<and> rng c' = rng c"
  by (cases f) (auto simp: push_back_def expr_max_size_def)

lemma call_unary:
  "arity f = 1 \<Longrightarrow> stack c = v # rest \<Longrightarrow>
     \<exists>c'. call ar f c = Inr c' \<and> \<not> pushes f
       \<and> length (stack c') = length (stack c)
       \<and> x_value c' = x_value c \<and> rng c' = rng c"
  by (cases f) (simp_all add: apply_unary_def)

lemma call_binary:
  "arity f = 2 \<Longrightarrow> stack c = b # a # rest \<Longrightarrow>
     \<exists>c'. call ar f c = Inr c' \<and> \<not> pushes f
       \<and> Suc (length (stack c')) = length (stack c)
       \<and> x_value c' = x_value c \<and> rng c' = rng c"
  by (cases f) (simp_all add: apply_binary_def)

lemma arity_step_cases:
  assumes "arity_step bound ch d0 = Some d"
  shows "(ch \<in> set nullary_pool \<and> d0 < bound \<and> d = Suc d0)
         \<or> (ch \<in> set unary_pool \<and> 1 \<le> d0 \<and> d = d0)
         \<or> (ch \<in> set binary_pool \<and> 2 \<le> d0 \<and> d = d0 - 1)"
proof (cases "ch \<in> set nullary_pool")
  case True
  with assms show ?thesis by (cases "d0 < bound") (simp_all add: arity_step_def)
next
  case n: False
  show ?thesis
  proof (cases "ch \<in> set unary_pool")
    case True
    with assms n show ?thesis by (cases "1 \<le> d0") (simp_all add: arity_step_def)
  next
    case u: False
    show ?thesis
    proof (cases "ch \<in> set binary_pool")
      case True
      with assms n u show ?thesis by (cases "2 \<le> d0") (simp_all add: arity_step_def)
    next
      case False
      with assms n u show ?thesis by (simp add: arity_step_def)
    qed
  qed
qed

lemma arity_step_call:
  assumes "arity_step bound ch (length (stack c)) = Some d" "bound \<le> expr_max_size"
  shows "\<exists>f c'. operator_dict ch = Inr f \<and> call ar f c = Inr c'
           \<and> length (stack c') = d \<and> x_value c' = x_value c \<and> rng c' = rng c
           \<and> \<not> (pushes f \<and> expr_max_size \<le> length (stack c))"
proof -
  consider (n) "ch \<in> set nullary_pool" "length (stack c) < bound" "d = Suc (length (stack c))"
    | (u) "ch \<in> set unary_pool" "1 \<le> length (stack c)" "d = length (stack c)"
    | (b) "ch \<in> set binary_pool" "2 \<le> length (stack c)" "d = length (stack c) - 1"
    using arity_step_cases [OF assms(1)] by blast
  then show ?thesis
  proof cases
    case n
    from operator_dict_nullary [OF n(1)] obtain f where f: "operator_dict ch = Inr f" "arity f = 0"
      by blast
    from call_nullary [OF f(2), of ar c] show ?thesis using f(1) n(2,3) assms(2) by auto
  next
    case u
    from operator_dict_unary [OF u(1)] obtain f where f: "operator_dict ch = Inr f" "arity f = 1"
      by blast
    from u(2) obtain v rest where s: "stack c = v # rest" by (cases "stack c") auto
    from call_unary [OF f(2) s, of ar] show ?thesis using f(1) u(3) by auto
  next
    case b
    from operator_dict_binary [OF b(1)] obtain f where f: "operator_dict ch = Inr f" "arity f = 2"
      by blast
    from b(2) obtain y x rest where s: "stack c = y # x # rest"
      by (cases "stack c"; cases "tl (stack c)") auto
    from call_binary [OF f(2) s, of ar] show ?thesis using f(1) b(3) by auto
  qed
qed

lemma arity_run_eval:
  "arity_run bound expr (length (stack c)) = Some d \<Longrightarrow> bound \<le> expr_max_size \<Longrightarrow>
   \<exists>compiled c'. compile expr = Inr compiled \<and> run ar compiled c = Inr c'
     \<and> length (stack c') = d \<and> x_value c' = x_value c \<and> rng c' = rng c
     \<and> within_capacity ar compiled c"
proof (induction expr arbitrary: c)
  case Nil
  then show ?case by simp
next
  case (Cons ch expr)
  from Cons.prems(1) obtain d1 where st: "arity_step bound ch (length (stack c)) = Some d1"
    and rest: "arity_run bound expr d1 = Some d"
    by (auto split: option.splits)
  from arity_step_call [OF st Cons.prems(2), of ar]
  obtain f c1 where f: "operator_dict ch = Inr f" "call ar f c = Inr c1"
    and c1: "length (stack c1) = d1" "x_value c1 = x_value c" "rng c1 = rng c"
    and cap: "\<not> (pushes f \<and> expr_max_size \<le> length (stack c))"
    by blast
  from Cons.IH [of c1] rest c1(1) Cons.prems(2)
  obtain compiled c' where "compile expr = Inr compiled" "run ar compiled c1 = Inr c'"
    "length (stack c') = d" "x_value c' = x_value c1" "rng c' = rng c1"
    "within_capacity ar compiled c1"
    by auto
  then show ?case using f c1 cap by auto
qed

lemma parse_step_pools:
  "\<forall>ch \<in> set nullary_pool. \<exists>n. parse_step ch st = Inr (n # st)"
  "\<forall>ch \<in> set unary_pool. \<exists>n. parse_step ch (a # st) = Inr (n # st)"
  "\<forall>ch \<in> set binary_pool. \<exists>n. parse_step ch (b # a # st) = Inr (n # st)"
  unfolding nullary_pool_def unary_pool_def binary_pool_def
  by (simp_all add: parse_step_def mk_FuncAST_def eval_func_name_def mk_BinaryOperatorAST_def
                    mk_Operator_def eval_precedence_def)

lemma parse_step_nullary:
  "ch \<in> set nullary_pool \<Longrightarrow> \<exists>n. parse_step ch st = Inr (n # st)"
  using parse_step_pools(1) by blast

lemma parse_step_unary:
  "ch \<in> set unary_pool \<Longrightarrow> \<exists>n. parse_step ch (a # st) = Inr (n # st)"
  using parse_step_pools(2) by blast

lemma parse_step_binary:
  "ch \<in> set binary_pool \<Longrightarrow> \<exists>n. parse_step ch (b # a # st) = Inr (n # st)"
  using parse_step_pools(3) by blast

lemma arity_step_parse:
  assumes "arity_step bound ch (length st) = Some d"
  shows "\<exists>st'. parse_step ch st = Inr st' \<and> length st' = d"
proof -
  consider (n) "ch \<in> set nullary_pool" "d = Suc (length st)"
    | (u) "ch \<in> set unary_pool" "1 \<le> length st" "d = length st"
    | (b) "ch \<in> set binary_pool" "2 \<le> length st" "d = length st - 1"
    using arity_step_cases [OF assms(1)] by blast
  then show ?thesis
  proof cases
    case n
    then show ?thesis using parse_step_nullary [of ch st] by auto
  next
    case u
    from u(2) obtain a rest where "st = a # rest" by (cases st) auto
    then show ?thesis using parse_step_unary [OF u(1), of a rest] u(3) by auto
  next
    case b
    from b(2) obtain y x rest where "st = y # x # rest" by (cases st; cases "tl st") auto
    then show ?thesis using parse_step_binary [OF b(1), of y x rest] b(3) by auto
  qed
qed

lemma arity_run_parse:
  "arity_run bound expr (length st) = Some d \<Longrightarrow>
   \<exists>st'. parse_loop expr st = Inr st' \<and> length st' = d"
proof (induction expr arbitrary: st)
  case Nil
  then show ?case by simp
next
  case (Cons ch expr)
  from Cons.prems obtain d1 where st: "arity_step bound ch (length st) = Some d1"
    and rest: "arity_run bound expr d1 = Some d"
    by (auto split: option.splits)
  from arity_step_parse [OF st] obtain st1 where "parse_step ch st = Inr st1" "length st1 = d1"
    by blast
  then show ?case using Cons.IH [of st1] rest by auto
qed

lemma arity_run_parse_reverse_polish:
  assumes "arity_run bound expr 0 = Some 1"
  shows "\<exists>root. parse_reverse_polish expr = Inr root"
proof -
  from arity_run_parse [of bound expr "[]" 1] assms
  obtain st' where p: "parse_loop expr [] = Inr st'" and "length st' = 1" by auto
  then obtain root where "st' = [root]" by (cases st'; cases "tl st'") auto
  with p show ?thesis by (simp add: parse_reverse_polish_def)
qed

lemma arity_run_compile:
  "arity_run bound expr d0 = Some d \<Longrightarrow> \<exists>compiled. compile expr = Inr compiled"
proof (induction expr arbitrary: d0)
  case Nil
  then show ?case by simp
next
  case (Cons ch expr)
  from Cons.prems obtain d1 where st: "arity_step bound ch d0 = Some d1"
    and rest: "arity_run bound expr d1 = Some d"
    by (auto split: option.splits)
  from arity_step_cases [OF st] obtain f where "operator_dict ch = Inr f"
    using operator_dict_nullary operator_dict_unary operator_dict_binary by blast
  then show ?case using Cons.IH [OF rest] by auto
qed

lemma compose_len:
  assumes L: "1 \<le> L" "L < INT_MAX" and call: "CustomGenerator_call (rng c) = (r, g1)"
    and draw: "0 \<le> r smod L"
  shows "\<exists>raw g2 compiled.
           compose L c = Inr ((raw, compiled), c\<lparr>rng := g2\<rparr>)
           \<and> compile raw = Inr compiled
           \<and> arity_run (nat L) raw 0 = Some 1
           \<and> 2 \<le> length raw
           \<and> int (length raw) \<le> max (L + 1) (2 * L - 1)"
proof -
  define m where "m = r smod L"
  have rem: "int_rem r L = Inr m" using L by (simp add: int_rem_def m_def)
  have m: "0 \<le> m" "m \<le> L - 1"
    using draw smod_int_range [where a = r and b = L] L by (simp_all add: m_def)
  have ti: "to_int (m + 2) = Inr (m + 2)"
    using m L by (simp add: to_int_def INT_MIN_def INT_MAX_def)
  from gen_random_expr_valid [of "m + 2" "nat L" g1] m
  obtain raw g2 where g: "gen_random_expr (m + 2) g1 = Inr (raw, g2)"
    and run: "arity_run (nat L) raw 0 = Some 1"
    and len: "2 \<le> length raw" "int (length raw) \<le> max (m + 2) (2 * (m + 2) - 3)"
    by auto
  from arity_run_compile [OF run] obtain compiled where cp: "compile raw = Inr compiled"
    by blast
  have "compose L c = Inr ((raw, compiled), c\<lparr>rng := g2\<rparr>)"
    using call rem ti g cp by (simp add: compose_def)
  moreover have "int (length raw) \<le> max (L + 1) (2 * L - 1)"
    using len(2) m(2) by (auto simp: max_def split: if_splits)
  ultimately show ?thesis using cp run len(1) by blast
qed

subsection \<open>Evaluating the generator on concrete seeds\<close>

lemma take_bit_uint32: "take_bit 32 (uint (w :: 32 word)) = uint w"
  using take_bit_length_eq [of w] unsigned_take_bit_eq [of 32 w, where 'a = int] by simp

lemma uint_xs13: "uint (w XOR push_bit 13 w) = int_xs13 (uint (w :: 32 word))"
  by (simp add: int_xs13_def unsigned_xor_eq unsigned_push_bit_eq take_bit_xor take_bit_uint32)

lemma uint_xs17: "uint (w XOR drop_bit 17 w) = int_xs17 (uint (w :: 32 word))"
  by (simp add: int_xs17_def unsigned_xor_eq unsigned_drop_bit_eq take_bit_uint32)

lemma uint_xs5: "uint (w XOR push_bit 5 w) = int_xs5 (uint (w :: 32 word))"
  by (simp add: int_xs5_def unsigned_xor_eq unsigned_push_bit_eq take_bit_xor take_bit_uint32)

lemma sint_uint32:
  "sint (w :: 32 word) = (if uint w < 2147483648 then uint w else uint w - 4294967296)"
proof -
  have lt: "uint w < 4294967296" using uint_lt2p [of w] by simp
  have s: "sint w = signed_take_bit 31 (uint w)" by (simp add: sint_uint)
  show ?thesis
  proof (cases "uint w < 2147483648")
    case True
    have lo: "- (2 ^ 31) \<le> uint w" by (rule order_trans [of _ 0]) simp_all
    have hi: "uint w < 2 ^ 31" using True by simp
    have "signed_take_bit 31 (uint w) = uint w"
      using lo hi by (rule signed_take_bit_int_eq_self)
    with s True show ?thesis by simp
  next
    case False
    have "take_bit (Suc 31) (uint w) = take_bit (Suc 31) (uint w - 2 ^ Suc 31)"
      by (simp add: take_bit_eq_mod)
    then have "signed_take_bit 31 (uint w) = signed_take_bit 31 (uint w - 2 ^ Suc 31)"
      by (simp only: signed_take_bit_eq_iff_take_bit_eq)
    moreover have "signed_take_bit 31 (uint w - 2 ^ Suc 31) = uint w - 2 ^ Suc 31"
    proof (rule signed_take_bit_int_eq_self)
      show "- (2 ^ 31) \<le> uint w - 2 ^ Suc 31" using False by simp
      show "uint w - 2 ^ Suc 31 < 2 ^ 31" using lt by simp
    qed
    ultimately show ?thesis using s False by simp
  qed
qed
lemma CustomGenerator_call_int:
  "CustomGenerator_call \<lparr>state = w\<rparr> = call_of_int (int_xs5 (int_xs17 (int_xs13 (uint w))))"
proof -
  define a where "a = w XOR push_bit 13 w"
  define b where "b = a XOR drop_bit 17 a"
  define x where "x = b XOR push_bit 5 b"
  have ua: "uint a = int_xs13 (uint w)" unfolding a_def by (rule uint_xs13)
  have ub: "uint b = int_xs17 (uint a)" unfolding b_def by (rule uint_xs17)
  have ux: "uint x = int_xs5 (uint b)" unfolding x_def by (rule uint_xs5)
  have "xorshift32 \<lparr>state = w\<rparr> = (x, \<lparr>state = x\<rparr>)"
    by (simp only: xorshift32_def Let_def x_def b_def a_def CustomGenerator.simps)
  then have "CustomGenerator_call \<lparr>state = w\<rparr> = (sint x, \<lparr>state = x\<rparr>)"
    by (simp add: CustomGenerator_call_def)
  also have "\<dots> = call_of_int (uint x)"
    by (simp add: call_of_int_def sint_uint32)
  finally show ?thesis by (simp only: ux ub ua)
qed

lemmas gen_eval = compose_def gen_random_expr_def gen_for.simps gen_while.simps gen_step_def
  draw_random_symbol_def CustomGenerator_call_int int_xs13_def int_xs17_def int_xs5_def
  call_of_int_def int_rem_def to_int_def nullary_pool_def unary_pool_def binary_pool_def
  INT_MIN_def INT_MAX_def signed_modulo_int_def operator_dict_def

subsection \<open>The output of the generator\<close>

text \<open>
  Claim C5, as amended. The specification bounds the length of the string that \<open>compose\<close>
  returns by 2 and \<open>L + 1\<close>. Both bounds fail (see the counterexample below). What the
  code guarantees: for a tentative length \<open>L\<close> from 1 up to, but not including, the largest
  \<open>int\<close>, and a generator state whose first draw leaves a remainder \<open>rng() % L\<close> that is
  not negative (so that the length \<open>len\<close> is at least 2), \<open>compose\<close> returns a string of at
  least 2 and at most \<open>max (L + 1) (2 L - 1)\<close> characters: \<open>len\<close> characters at most
  from the \<open>for\<close> loop and \<open>len - 3\<close> at most from the \<open>while\<close> loop.
\<close>

theorem compose_length_bounds:
  assumes "1 \<le> L" "L < INT_MAX" "0 \<le> fst (CustomGenerator_call (rng c)) smod L"
  shows "\<exists>raw_expr compiled c'.
           compose L c = Inr ((raw_expr, compiled), c')
           \<and> 2 \<le> length raw_expr
           \<and> int (length raw_expr) \<le> max (L + 1) (2 * L - 1)"
proof -
  obtain r g1 where call: "CustomGenerator_call (rng c) = (r, g1)"
    by (cases "CustomGenerator_call (rng c)")
  with assms(3) have "0 \<le> r smod L" by simp
  from compose_len [OF assms(1,2) call this] show ?thesis by blast
qed

theorem compose_length_bounds_witness:
  "(1::int) \<le> 20 \<and> 20 < INT_MAX
   \<and> 0 \<le> fst (CustomGenerator_call
                (rng \<lparr>x_value = 0::int, stack = [], rng = \<lparr>state = 1\<rparr>\<rparr>)) smod 20
   \<and> (\<exists>raw_expr compiled c'.
         compose 20 \<lparr>x_value = 0::int, stack = [], rng = \<lparr>state = 1\<rparr>\<rparr>
           = Inr ((raw_expr, compiled), c')
         \<and> 2 \<le> length raw_expr
         \<and> int (length raw_expr) \<le> max (20 + 1) (2 * 20 - 1))"
proof -
  have h1: "(1::int) \<le> 20" by simp
  have h2: "20 < INT_MAX" by (simp add: INT_MAX_def)
  have h3: "0 \<le> fst (CustomGenerator_call
                (rng \<lparr>x_value = 0::int, stack = [], rng = \<lparr>state = 1\<rparr>\<rparr>)) smod 20"
    by (simp add: CustomGenerator_call_def xorshift32_def signed_modulo_int_def)
  from h1 h2 h3 compose_length_bounds [OF h1 h2 h3] show ?thesis by blast
qed

text \<open>
  The claim as stated fails in both directions. From the state 8192 the first draw is
  negative (\<open>-2080087552\<close>), its remainder by 20 is \<open>-12\<close>, the length is \<open>-10\<close> and
  the result is the empty string. From the state 1 with \<open>L = 5\<close> the length is 6, the loop
  leaves three operands on the virtual stack and two closing operators are appended: 8
  characters, more than \<open>L + 1\<close>.
\<close>

theorem compose_length_counterexample:
  "compose 20 \<lparr>x_value = 0::int, stack = [], rng = \<lparr>state = 8192\<rparr>\<rparr>
     = Inr (([], []), \<lparr>x_value = 0, stack = [], rng = \<lparr>state = 2214879744\<rparr>\<rparr>)
   \<and> length ([] :: string) < 2
   \<and> compose 5 \<lparr>x_value = 0::int, stack = [], rng = \<lparr>state = 1\<rparr>\<rparr>
     = Inr ((''x<1xx//-'',
             [Composer_x, Composer_decrement, Composer_one, Composer_x, Composer_x,
              Composer_divide, Composer_divide, Composer_subtract]),
            \<lparr>x_value = 0, stack = [], rng = \<lparr>state = 87470069\<rparr>\<rparr>)
   \<and> 5 + 1 < length ''x<1xx//-''"
  by (simp add: gen_eval
        cong: prod.case_cong_weak sum.case_cong_weak if_weak_cong let_weak_cong)

text \<open>
  Claim C4, as amended. The specification promises, for every non-zero seed and every
  \<open>L \<ge> 1\<close>, a non-empty string that the parser accepts and whose program runs without
  reading an empty stack and within the capacity 64. Nothing in the code bounds the depth
  by 64 for a large \<open>L\<close>, and the claim fails there; it also fails when the first draw
  leaves a negative remainder (both in the counterexample below). What the code
  guarantees: for every generator state whose first draw leaves a remainder
  \<open>rng() % L\<close> that is not negative, with \<open>1 \<le> L\<close> and \<open>L\<close> below the largest
  \<open>int\<close>, \<open>compose\<close> returns a non-empty string that
  \<open>parse_reverse_polish\<close> turns into a tree (final stack size 1); and when moreover
  \<open>L \<le> 64\<close>, \<open>eval\<close> on the compiled program, from an empty operand stack, returns a
  value, leaves the stack empty and never pushes on a full buffer.
\<close>

theorem compose_output_valid:
  assumes "1 \<le> L" "L < INT_MAX"
    and "0 \<le> fst (CustomGenerator_call (rng c)) smod L"
    and "stack c = []"
  shows "\<exists>raw_expr compiled c'.
           compose L c = Inr ((raw_expr, compiled), c')
           \<and> raw_expr \<noteq> []
           \<and> (\<exists>root. parse_reverse_polish raw_expr = Inr root)
           \<and> (L \<le> int expr_max_size \<longrightarrow>
                (\<exists>v c''. eval ar compiled x c' = Inr (v, c'') \<and> stack c'' = [])
                \<and> within_capacity ar compiled (c'\<lparr>x_value := x\<rparr>))"
proof -
  obtain r g1 where call: "CustomGenerator_call (rng c) = (r, g1)"
    by (cases "CustomGenerator_call (rng c)")
  with assms(3) have draw: "0 \<le> r smod L" by simp
  from compose_len [OF assms(1,2) call draw]
  obtain raw g2 compiled where cmp: "compose L c = Inr ((raw, compiled), c\<lparr>rng := g2\<rparr>)"
    and cp: "compile raw = Inr compiled"
    and run: "arity_run (nat L) raw 0 = Some 1"
    and len: "2 \<le> length raw"
    by blast
  let ?c = "c\<lparr>rng := g2, x_value := x\<rparr>"
  have ne: "raw \<noteq> []" using len by auto
  from arity_run_parse_reverse_polish [OF run] obtain root
    where root: "parse_reverse_polish raw = Inr root" by blast
  have safe: "(\<exists>v c''. eval ar compiled x (c\<lparr>rng := g2\<rparr>) = Inr (v, c'') \<and> stack c'' = [])
              \<and> within_capacity ar compiled ?c"
    if small: "L \<le> int expr_max_size"
  proof -
    have bound: "nat L \<le> expr_max_size" using assms(1) small by simp
    have "arity_run (nat L) raw (length (stack ?c)) = Some 1" using run assms(4) by simp
    from arity_run_eval [OF this bound, of ar] cp
    obtain c1 where r1: "run ar compiled ?c = Inr c1" and l1: "length (stack c1) = 1"
      and cap: "within_capacity ar compiled ?c"
      by auto
    from l1 obtain v where s1: "stack c1 = [v]" by (cases "stack c1") auto
    have "eval ar compiled x (c\<lparr>rng := g2\<rparr>) = Inr (v, c1\<lparr>stack := []\<rparr>)"
      using r1 s1 by (simp add: eval_def eval_compiled_def)
    with cap show ?thesis by simp
  qed
  from cmp ne root safe show ?thesis by auto
qed

theorem compose_output_valid_witness:
  "(1::int) \<le> 20 \<and> 20 < INT_MAX
   \<and> 0 \<le> fst (CustomGenerator_call
                (rng \<lparr>x_value = 0::int, stack = [], rng = \<lparr>state = 1\<rparr>\<rparr>)) smod 20
   \<and> stack \<lparr>x_value = 0::int, stack = [], rng = \<lparr>state = 1\<rparr>\<rparr> = []
   \<and> 20 \<le> int expr_max_size
   \<and> (\<exists>raw_expr compiled c'.
         compose 20 \<lparr>x_value = 0::int, stack = [], rng = \<lparr>state = 1\<rparr>\<rparr>
           = Inr ((raw_expr, compiled), c')
         \<and> raw_expr \<noteq> []
         \<and> (\<exists>root. parse_reverse_polish raw_expr = Inr root)
         \<and> (\<exists>v c''. eval toy_arith compiled 3 c' = Inr (v, c'') \<and> stack c'' = [])
         \<and> within_capacity toy_arith compiled (c'\<lparr>x_value := 3\<rparr>))"
proof -
  have h1: "(1::int) \<le> 20" by simp
  have h2: "20 < INT_MAX" by (simp add: INT_MAX_def)
  have h3: "0 \<le> fst (CustomGenerator_call
                (rng \<lparr>x_value = 0::int, stack = [], rng = \<lparr>state = 1\<rparr>\<rparr>)) smod 20"
    by (simp add: CustomGenerator_call_def xorshift32_def signed_modulo_int_def)
  have h4: "stack \<lparr>x_value = 0::int, stack = [], rng = \<lparr>state = 1\<rparr>\<rparr> = []" by simp
  have h5: "20 \<le> int expr_max_size" by (simp add: expr_max_size_def)
  from compose_output_valid [OF h1 h2 h3 h4, of toy_arith 3] h5
  obtain raw_expr compiled c'
    where "compose 20 \<lparr>x_value = 0::int, stack = [], rng = \<lparr>state = 1\<rparr>\<rparr>
             = Inr ((raw_expr, compiled), c')"
      and "raw_expr \<noteq> []" and "\<exists>root. parse_reverse_polish raw_expr = Inr root"
      and "\<exists>v c''. eval toy_arith compiled 3 c' = Inr (v, c'') \<and> stack c'' = []"
      and "within_capacity toy_arith compiled (c'\<lparr>x_value := 3\<rparr>)"
    by auto
  with h1 h2 h3 h4 h5 show ?thesis by blast
qed

text \<open>
  The claim as stated fails in two ways. By design, nothing bounds the depth of the
  operand stack by the capacity when \<open>L\<close> is large: at the seed 118932 with \<open>L = 200\<close> the
  first draw is \<open>2021326397\<close>, the length is 199, the string has 192 characters, its
  program pushes a 65th operand on the full buffer (which overwrites the oldest one), and
  \<open>eval\<close> ends by reading the back of an empty buffer. And at the seed 8192 with
  \<open>L = 20\<close> the first draw is negative: the string is empty, the parser rejects it, and
  \<open>eval\<close> on the empty program reads the back of an empty buffer.
\<close>

theorem compose_output_counterexample:
  "(case compose 200 \<lparr>x_value = 0::int, stack = [], rng = \<lparr>state = 118932\<rparr>\<rparr> of
      Inl e \<Rightarrow> False
    | Inr ((raw_expr, compiled), c') \<Rightarrow>
        raw_expr = ''x<1/LxR1CH1xx11+L+~1xx11xR><1xxx111L11/S~1xxx1xx~x11-Hx1~1R1<1xxx1xx1x**~x*C>-1x11x~x1x<x/1x*SxL+xx1R/1Hx11-xx1xxx1*x11xxx*1--xx*++-*+/+-+//-*-*/-+-*/**//++-/*+/++/--/-+/-++-/*/+--*/+*+-/+*+**''
        \<and> c' = \<lparr>x_value = 0, stack = [], rng = \<lparr>state = 1898943267\<rparr>\<rparr>
        \<and> \<not> within_capacity toy_arith compiled (c'\<lparr>x_value := 3\<rparr>)
        \<and> eval toy_arith compiled 3 c' = Inl EmptyContainer)
   \<and> compose 20 \<lparr>x_value = 0::int, stack = [], rng = \<lparr>state = 8192\<rparr>\<rparr>
       = Inr (([], []), \<lparr>x_value = 0, stack = [], rng = \<lparr>state = 2214879744\<rparr>\<rparr>)
   \<and> parse_reverse_polish [] = Inl AssertionFailed
   \<and> eval toy_arith [] 3 \<lparr>x_value = 0, stack = [], rng = \<lparr>state = 2214879744\<rparr>\<rparr>
       = Inl EmptyContainer"
  by (simp add: gen_eval toy_arith_def push_back_def apply_unary_def apply_binary_def
        expr_max_size_def eval_def eval_compiled_def parse_reverse_polish_def
        cong: prod.case_cong_weak sum.case_cong_weak if_weak_cong let_weak_cong)

subsection \<open>The generator\<close>

text \<open>
  Claim C9. The state is updated by the three shift-and-xor steps, as the specification
  says, and \<open>xorshift32\<close> returns the new state. But the call operator returns it as
  \<open>int\<close>: a state with its top bit set is returned as a negative number, below the
  range \<open>[0, 2\<^sup>3\<^sup>2 - 1]\<close> of the specification and below the \<open>min()\<close> that the class
  itself declares. From the seed 8192 the first value returned is \<open>-2080087552\<close>.
\<close>

theorem CustomGenerator_call_negative:
  "xorshift32 \<lparr>state = 8192\<rparr> = (2214879744, \<lparr>state = 2214879744\<rparr>)
   \<and> CustomGenerator_call \<lparr>state = 8192\<rparr> = (- 2080087552, \<lparr>state = 2214879744\<rparr>)
   \<and> fst (CustomGenerator_call \<lparr>state = 8192\<rparr>) < CustomGenerator_min"
  by (simp add: CustomGenerator_call_def xorshift32_def CustomGenerator_min_def)

subsection \<open>The evaluator\<close>

lemma run_keeps:
  "run ar compiled_expr c = Inr c' \<Longrightarrow> c' = c\<lparr>stack := stack c'\<rparr>"
proof (induction compiled_expr arbitrary: c)
  case Nil
  then show ?case by simp
next
  case (Cons f fs)
  from Cons.prems obtain c1 where c1: "call ar f c = Inr c1" and r: "run ar fs c1 = Inr c'"
    by (auto split: sum.splits)
  have "c1 = c\<lparr>stack := stack c1\<rparr>"
    using c1 by (cases f)
      (auto simp: push_back_def apply_unary_def apply_binary_def split: list.splits)
  with Cons.IH [OF r] show ?case by (metis Composer.surjective Composer.update_convs(2))
qed

text \<open>
  Claim C10. When the loop of \<open>eval\<close>, started on an empty operand stack, runs through the
  program without reading an empty stack and ends with exactly one operand, \<open>eval\<close>
  returns that operand and leaves the stack empty; the composer then differs from the one
  before the call in \<open>x_value\<close> only, which the next call overwrites, so a later \<open>eval\<close>
  gives what it would have given before.
\<close>

theorem eval_returns_final_operand:
  assumes "stack c = []"
    and "run ar compiled_expr (c\<lparr>x_value := x\<rparr>) = Inr c1"
    and "stack c1 = [v]"
  shows "\<exists>c'. eval ar compiled_expr x c = Inr (v, c') \<and> stack c' = []
           \<and> eval ar other_expr y c' = eval ar other_expr y c"
proof -
  from run_keeps [OF assms(2)] assms(3) have c1: "c1 = c\<lparr>x_value := x, stack := [v]\<rparr>"
    by simp
  have "eval ar compiled_expr x c = Inr (v, c1\<lparr>stack := []\<rparr>)"
    using assms(2,3) by (simp add: eval_def eval_compiled_def)
  moreover have "c1\<lparr>stack := []\<rparr> = c\<lparr>x_value := x\<rparr>" using c1 assms(1) by simp
  moreover have "eval ar other_expr y (c\<lparr>x_value := x\<rparr>) = eval ar other_expr y c"
    by (simp add: eval_def)
  ultimately show ?thesis using assms(1) by simp
qed

theorem eval_returns_final_operand_witness:
  "stack \<lparr>x_value = 0::int, stack = [], rng = \<lparr>state = 1\<rparr>\<rparr> = []
   \<and> run toy_arith [Composer_x, Composer_square]
         (\<lparr>x_value = 0::int, stack = [], rng = \<lparr>state = 1\<rparr>\<rparr>\<lparr>x_value := 3\<rparr>)
       = Inr \<lparr>x_value = 3, stack = [9], rng = \<lparr>state = 1\<rparr>\<rparr>
   \<and> (\<exists>c'. eval toy_arith [Composer_x, Composer_square] 3
               \<lparr>x_value = 0::int, stack = [], rng = \<lparr>state = 1\<rparr>\<rparr> = Inr (9, c')
            \<and> stack c' = []
            \<and> eval toy_arith [Composer_x, Composer_invert] 2 c'
                = eval toy_arith [Composer_x, Composer_invert] 2
                    \<lparr>x_value = 0::int, stack = [], rng = \<lparr>state = 1\<rparr>\<rparr>)"
proof -
  have h1: "stack \<lparr>x_value = 0::int, stack = [], rng = \<lparr>state = 1\<rparr>\<rparr> = []" by simp
  have h2: "run toy_arith [Composer_x, Composer_square]
         (\<lparr>x_value = 0::int, stack = [], rng = \<lparr>state = 1\<rparr>\<rparr>\<lparr>x_value := 3\<rparr>)
       = Inr \<lparr>x_value = 3, stack = [9], rng = \<lparr>state = 1\<rparr>\<rparr>"
    by (simp add: toy_arith_def push_back_def apply_unary_def expr_max_size_def)
  have h3: "stack \<lparr>x_value = 3::int, stack = [9], rng = \<lparr>state = 1\<rparr>\<rparr> = [9]" by simp
  from h1 h2 eval_returns_final_operand [OF h1 h2 h3] show ?thesis by blast
qed

end
